theory Spec2Isabelle
  imports Main "HOL-Library.Word"
begin

unbundle bit_operations_syntax

section \<open>Common types\<close>

type_synonym u8 = "8 word"
type_synonym u16 = "16 word"
type_synonym u32 = "32 word"
type_synonym size_t = "64 word"

text \<open>
  The exceptions of the library, and the outcomes that are not exceptions.
  \<open>RawDecoderException\<close> is what \<^verbatim>\<open>ThrowRDE\<close> throws and
  \<open>RawspeedException\<close> what \<^verbatim>\<open>ThrowRSE\<close> throws; each
  carries the format string of its message.  \<open>IoEof\<close> and
  \<open>TruncatedBitstream\<close> are the failures of the byte stream and of the bit
  reader.  \<open>InvariantViolation\<close> is a failed \<^verbatim>\<open>invariant(...)\<close>:
  an assertion in debug builds and a compiler assumption otherwise, so the
  program has no defined behaviour past it.  \<open>OutOfBounds\<close> is an access
  outside the array that a view was built on, \<open>SignedOverflow\<close> an
  overflow of \<^verbatim>\<open>int\<close> arithmetic and \<open>InvalidFree\<close> a call of
  \<^verbatim>\<open>free\<close> on a pointer that is not a live block: undefined behaviour
  all three.  A plain \<^verbatim>\<open>assert\<close> is compiled out of release builds and
  is not a branch of the model; where the code goes on to an undefined
  operation when the asserted condition fails, that operation is the branch.
\<close>

datatype error =
    RawDecoderException string
  | RawspeedException string
  | IoEof
  | TruncatedBitstream
  | InvariantViolation
  | OutOfBounds
  | SignedOverflow
  | InvalidFree

section \<open>FujiDecompressor.h: header and strips\<close>

text \<open>\<^verbatim>\<open>struct FujiHeader\<close>, field by field; \<open>MCU\<close> is the \<^verbatim>\<open>iPoint2D\<close> (x, y).\<close>

record FujiHeader =
  signature :: u16
  version :: u8
  raw_type :: u8
  raw_bits :: u8
  raw_height :: u16
  raw_rounded_width :: u16
  raw_width :: u16
  block_size :: u16
  blocks_in_row :: u8
  total_lines :: u16
  MCU :: "int \<times> int"

text \<open>
  \<^verbatim>\<open>struct FujiStrip\<close>: the header it refers to and its index \<open>n\<close>
  (the fields \<^verbatim>\<open>h\<close> and \<^verbatim>\<open>n\<close>; the byte stream of the strip plays no
  role in its geometry).
\<close>

record FujiStrip =
  strip_h :: FujiHeader
  strip_n :: int

text \<open>The condition asserted by the constructor of \<^verbatim>\<open>FujiStrip\<close>.\<close>

definition FujiStrip_assert :: "FujiStrip \<Rightarrow> bool" where
  "FujiStrip_assert s = (0 \<le> strip_n s \<and> strip_n s < uint (blocks_in_row (strip_h s)))"

text \<open>
  \<^verbatim>\<open>offsetX\<close> and \<^verbatim>\<open>width\<close>.  The fields are promoted to \<^verbatim>\<open>int\<close>
  before the arithmetic; a product of a 16-bit and an 8-bit value and a
  difference of such values fit in 32 bits, so the arithmetic is that of
  \<open>int\<close>.  The \<^verbatim>\<open>assert\<close> in \<^verbatim>\<open>width\<close> is compiled out of
  release builds and does not change the value returned; its condition is
  \<open>width_assert\<close>.
\<close>

definition offsetX :: "FujiStrip \<Rightarrow> int" where
  "offsetX s = uint (block_size (strip_h s)) * strip_n s"

definition width_assert :: "FujiStrip \<Rightarrow> bool" where
  "width_assert s =
     (uint (block_size (strip_h s)) * uint (blocks_in_row (strip_h s)) \<ge> uint (raw_width (strip_h s)))"

definition width :: "FujiStrip \<Rightarrow> int" where
  "width s =
     (if strip_n s + 1 \<noteq> uint (blocks_in_row (strip_h s)) then uint (block_size (strip_h s))
      else uint (raw_width (strip_h s)) - offsetX s)"

text \<open>
  Modelled from the spec: the validity check of the header
  (\<^verbatim>\<open>FujiHeader::operator bool\<close> is only declared in the header file).
  The spec gives it as: signature is 0x4953, \<open>raw_height > 0\<close>,
  \<open>raw_width > 0\<close>, \<open>block_size > 0\<close>,
  \<open>blocks_in_row = ceil(raw_rounded_width / block_size)\<close>,
  \<open>raw_rounded_width \<ge> raw_width\<close> and \<open>block_size % MCU.x = 0\<close>.
\<close>

definition roundUpDivision :: "int \<Rightarrow> int \<Rightarrow> int" where
  "roundUpDivision a b = (a + b - 1) div b"

definition FujiHeader_valid :: "FujiHeader \<Rightarrow> bool" where
  "FujiHeader_valid fh =
     (signature fh = 0x4953 \<and>
      raw_height fh > 0 \<and>
      raw_width fh > 0 \<and>
      block_size fh > 0 \<and>
      uint (blocks_in_row fh) =
        roundUpDivision (uint (raw_rounded_width fh)) (uint (block_size fh)) \<and>
      raw_rounded_width fh \<ge> raw_width fh \<and>
      uint (block_size fh) mod fst (MCU fh) = 0)"

text \<open>The horizontal pixel range of strip \<open>k\<close> of a header.\<close>

definition strip_of :: "FujiHeader \<Rightarrow> int \<Rightarrow> FujiStrip" where
  "strip_of fh k = \<lparr>strip_h = fh, strip_n = k\<rparr>"

definition strip_range :: "FujiHeader \<Rightarrow> int \<Rightarrow> int set" where
  "strip_range fh k =
     {offsetX (strip_of fh k) ..< offsetX (strip_of fh k) + width (strip_of fh k)}"

text \<open>A header that passes the validity check of the spec, with two blocks in a row.\<close>

definition narrow_header :: FujiHeader where
  "narrow_header =
     \<lparr>signature = 0x4953, version = 1, raw_type = 0, raw_bits = 14,
      raw_height = 6, raw_rounded_width = 1536, raw_width = 600,
      block_size = 768, blocks_in_row = 2, total_lines = 1, MCU = (2, 6)\<rparr>"

definition wide_header :: FujiHeader where
  "wide_header =
     \<lparr>signature = 0x4953, version = 1, raw_type = 0, raw_bits = 14,
      raw_height = 6, raw_rounded_width = 1536, raw_width = 1500,
      block_size = 768, blocks_in_row = 2, total_lines = 1, MCU = (2, 6)\<rparr>"

section \<open>TableLookUp.cpp\<close>

definition TABLE_MAX_ELTS :: nat where
  "TABLE_MAX_ELTS = 65535 + 1"

definition TABLE_SIZE :: nat where
  "TABLE_SIZE = TABLE_MAX_ELTS * 2"

definition INT_MAX :: int where
  "INT_MAX = 2 ^ 31 - 1"

text \<open>
  \<^verbatim>\<open>class TableLookUp\<close>, by the members that the functions use: the
  number of tables, the dither flag and the vector \<^verbatim>\<open>tables\<close> of
  \<open>ntables * TABLE_SIZE\<close> values.
\<close>

record TableLookUp =
  ntables :: int
  dither :: bool
  tables :: "u16 list"

text \<open>
  The constructor.  The size \<^verbatim>\<open>ntables * TABLE_SIZE\<close> is computed in
  \<^verbatim>\<open>int\<close>.
\<close>

definition TableLookUp_new :: "int \<Rightarrow> bool \<Rightarrow> error + TableLookUp" where
  "TableLookUp_new nt d =
     (if nt < 1 then Inl (RawDecoderException ''Cannot construct 0 tables'')
      else if nt * int TABLE_SIZE > INT_MAX then Inl SignedOverflow
      else Inr \<lparr>ntables = nt, dither = d,
                tables = replicate (nat (nt * int TABLE_SIZE)) 0\<rparr>)"

text \<open>
  Modelled from the spec: the row view
  \<^verbatim>\<open>Array2DRef(tables.data(), TABLE_SIZE, ntables)[k]\<close> (Array2DRef.h is not
  among the sources).  The vector holds \<open>ntables\<close> tables one after the
  other, so the view has \<open>ntables\<close> rows of \<open>TABLE_SIZE\<close> values and row
  \<open>k\<close> starts at offset \<open>k * TABLE_SIZE\<close>; a row outside the view lies
  outside the vector.
\<close>

definition table_row :: "TableLookUp \<Rightarrow> int \<Rightarrow> error + nat" where
  "table_row t k =
     (if 0 \<le> k \<and> k < ntables t then Inr (nat k * TABLE_SIZE) else Inl OutOfBounds)"

text \<open>
  Modelled from the spec: \<^verbatim>\<open>clampBits(value, nBits)\<close> (Common.h is not among
  the sources); the spec has the value clamped to 16 bits.
\<close>

definition clampBits :: "int \<Rightarrow> nat \<Rightarrow> int" where
  "clampBits v nb = max 0 (min v (2 ^ nb - 1))"

text \<open>
  The loop of the non-dither mode, from index \<open>i\<close> on: entry \<open>i\<close> of the
  row at offset \<open>base\<close> becomes \<^verbatim>\<open>(i < nfilled) ? table[i] : table[nfilled - 1]\<close>.
\<close>

function setTable_plain :: "nat \<Rightarrow> u16 list \<Rightarrow> nat \<Rightarrow> u16 list \<Rightarrow> u16 list" where
  "setTable_plain i table base tabs =
     (if i < TABLE_MAX_ELTS then
        setTable_plain (i + 1) table base
          (tabs[base + i := (if i < length table then table ! i
                             else table ! (length table - 1))])
      else tabs)"
  by pat_completeness auto
termination
  by (relation "measure (\<lambda>(i, table, base, tabs). TABLE_MAX_ELTS - i)") auto

text \<open>
  The body of the first loop of the dither mode: the two values stored for
  index \<open>i\<close>, or the failure of \<^verbatim>\<open>invariant(delta >= 0)\<close>.
\<close>

definition setTable_dither_entry :: "u16 list \<Rightarrow> nat \<Rightarrow> error + (u16 \<times> u16)" where
  "setTable_dither_entry table i =
     (let center = uint (table ! i);
          lower0 = (if i > 0 then uint (table ! (i - 1)) else center);
          upper0 = (if i < length table - 1 then uint (table ! (i + 1)) else center);
          lower = min lower0 center;
          upper = max upper0 center;
          delta = upper - lower
      in if \<not> delta \<ge> 0 then Inl InvariantViolation
         else Inr (word_of_int (clampBits (center - ((upper - lower + 2) div 4)) 16),
                   word_of_int delta))"

text \<open>The first loop of the dither mode, from index \<open>i\<close> on.\<close>

function setTable_dither :: "nat \<Rightarrow> u16 list \<Rightarrow> nat \<Rightarrow> u16 list \<Rightarrow> error + u16 list" where
  "setTable_dither i table base tabs =
     (if i < length table then
        (case setTable_dither_entry table i of
           Inl e \<Rightarrow> Inl e
         | Inr (c, d) \<Rightarrow>
             setTable_dither (i + 1) table base
               (tabs[base + i * 2 := c, base + i * 2 + 1 := d]))
      else Inr tabs)"
  by pat_completeness auto
termination
  by (relation "measure (\<lambda>(i, table, base, tabs). length table - i)") auto

text \<open>The second loop of the dither mode, from index \<open>i\<close> on.\<close>

function setTable_fill :: "nat \<Rightarrow> u16 list \<Rightarrow> nat \<Rightarrow> u16 list \<Rightarrow> u16 list" where
  "setTable_fill i table base tabs =
     (if i < TABLE_MAX_ELTS then
        setTable_fill (i + 1) table base
          (tabs[base + i * 2 := table ! (length table - 1), base + i * 2 + 1 := 0])
      else tabs)"
  by pat_completeness auto
termination
  by (relation "measure (\<lambda>(i, table, base, tabs). TABLE_MAX_ELTS - i)") auto

text \<open>
  \<^verbatim>\<open>TableLookUp::setTable\<close>.  With an empty source (excluded by an
  \<^verbatim>\<open>assert\<close> only) both modes read \<^verbatim>\<open>table[nfilled - 1]\<close> outside the
  source.
\<close>

definition setTable :: "TableLookUp \<Rightarrow> int \<Rightarrow> u16 list \<Rightarrow> error + TableLookUp" where
  "setTable t ntable table =
     (let nfilled = length table in
      if nfilled > TABLE_MAX_ELTS then
        Inl (RawDecoderException ''Table lookup with %i entries is unsupported'')
      else if ntable > ntables t then
        Inl (RawDecoderException ''Table lookup with number greater than number of tables.'')
      else
        (case table_row t ntable of
           Inl e \<Rightarrow> Inl e
         | Inr base \<Rightarrow>
             if table = [] then Inl OutOfBounds
             else if \<not> dither t then
               Inr (t\<lparr>tables := setTable_plain 0 table base (tables t)\<rparr>)
             else
               (case setTable_dither 0 table base (tables t) of
                  Inl e \<Rightarrow> Inl e
                | Inr tabs \<Rightarrow>
                    Inr (t\<lparr>tables := setTable_fill nfilled table base tabs\<rparr>))))"

text \<open>\<^verbatim>\<open>TableLookUp::getTable\<close>: the row, as the list of its \<open>TABLE_SIZE\<close> values.\<close>

definition getTable :: "TableLookUp \<Rightarrow> int \<Rightarrow> error + u16 list" where
  "getTable t k =
     (if k > ntables t then
        Inl (RawDecoderException ''Table lookup with number greater than number of tables.'')
      else
        (case table_row t k of
           Inl e \<Rightarrow> Inl e
         | Inr base \<Rightarrow> Inr (take TABLE_SIZE (drop base (tables t)))))"

text \<open>A lookup with one table, as the constructor builds it.\<close>

definition one_table :: "bool \<Rightarrow> TableLookUp" where
  "one_table d = \<lparr>ntables = 1, dither = d, tables = replicate (nat (1 * int TABLE_SIZE)) 0\<rparr>"

text \<open>
  What the constructor establishes and \<^verbatim>\<open>setTable\<close> keeps: there is at
  least one table, and the vector holds \<open>ntables\<close> rows.
\<close>

definition TableLookUp_wf :: "TableLookUp \<Rightarrow> bool" where
  "TableLookUp_wf t = (1 \<le> ntables t \<and> length (tables t) = nat (ntables t) * TABLE_SIZE)"

section \<open>AlignedAllocator.h\<close>

text \<open>
  Pointers and sizes are 64-bit values; the null pointer is 0.

  Modelled from the spec: \<^verbatim>\<open>isPowerOfTwo\<close>, \<^verbatim>\<open>isAligned\<close> and
  \<^verbatim>\<open>roundUp\<close> (Common.h is not among the sources).  The spec speaks of a
  power-of-two alignment and of rows padded up to the alignment: a power of
  two has exactly one bit set, a value is aligned when it is a multiple, and
  rounding up goes to the next multiple (in \<^verbatim>\<open>size_t\<close> arithmetic, which
  wraps around).
\<close>

definition isPowerOfTwo :: "size_t \<Rightarrow> bool" where
  "isPowerOfTwo a = (a \<noteq> 0 \<and> a AND (a - 1) = 0)"

definition isAligned :: "size_t \<Rightarrow> size_t \<Rightarrow> bool" where
  "isAligned v multiple = (multiple = 0 \<or> v mod multiple = 0)"

definition roundUp :: "size_t \<Rightarrow> size_t \<Rightarrow> size_t" where
  "roundUp v multiple =
     (if multiple = 0 \<or> v mod multiple = 0 then v else v + multiple - v mod multiple)"

definition sizeof_voidp :: size_t where
  "sizeof_voidp = 8"

definition SIZE_MAX :: size_t where
  "SIZE_MAX = - 1"

text \<open>
  \<^verbatim>\<open>impl::alignedMalloc\<close>.  \<open>fuzzing\<close> says whether
  \<^verbatim>\<open>FUZZING_BUILD_MODE_UNSAFE_FOR_PRODUCTION\<close> is defined, and \<open>sys\<close> is the
  aligned allocation of the platform (\<^verbatim>\<open>aligned_alloc\<close>,
  \<^verbatim>\<open>posix_memalign\<close> or \<^verbatim>\<open>_aligned_malloc\<close>), taking the alignment and
  the size and returning the pointer, null on failure.
\<close>

definition alignedMalloc ::
  "bool \<Rightarrow> (size_t \<Rightarrow> size_t \<Rightarrow> size_t) \<Rightarrow> size_t \<Rightarrow> size_t \<Rightarrow> error + size_t" where
  "alignedMalloc fuzzing sys sz alignment =
     (if \<not> isPowerOfTwo alignment then Inl InvariantViolation
      else if \<not> isAligned alignment sizeof_voidp then Inl InvariantViolation
      else if \<not> isAligned sz alignment then Inl InvariantViolation
      else if fuzzing \<and> sz > push_bit 30 2 then Inr 0
      else
        (let ptr = sys alignment sz in
         if \<not> isAligned ptr alignment then Inl InvariantViolation else Inr ptr))"

text \<open>
  \<^verbatim>\<open>impl::alignedFree\<close>.  The heap is the set of the live blocks.
  \<^verbatim>\<open>free\<close> does nothing on a null pointer, releases a live block, and
  is undefined on anything else.
\<close>

type_synonym heap = "size_t set"

definition alignedFree :: "heap \<Rightarrow> size_t \<Rightarrow> error + heap" where
  "alignedFree hp p =
     (if p = 0 then Inr hp
      else if p \<in> hp then Inr (hp - {p})
      else Inl InvalidFree)"

text \<open>
  \<^verbatim>\<open>template <class T, int alignment> class AlignedAllocator\<close>: the
  parameters of an instance are \<^verbatim>\<open>sizeof(T)\<close>, \<^verbatim>\<open>alignof(T)\<close> and the
  alignment.  The \<^verbatim>\<open>static_assert\<close> of \<^verbatim>\<open>allocate\<close> makes an instance
  with \<open>alignment < alignof(T)\<close> ill-formed.
\<close>

record AlignedAllocator =
  sizeofT :: size_t
  alignofT :: size_t
  alignment :: size_t

definition static_assert_alignment :: "AlignedAllocator \<Rightarrow> bool" where
  "static_assert_alignment A = (alignment A \<ge> alignofT A)"

text \<open>
  \<^verbatim>\<open>AlignedAllocator::allocate\<close>.  Poisoning the padding for the address
  sanitizer does not change the result.
\<close>

definition allocate ::
  "bool \<Rightarrow> (size_t \<Rightarrow> size_t \<Rightarrow> size_t) \<Rightarrow> AlignedAllocator \<Rightarrow> size_t \<Rightarrow> error + size_t" where
  "allocate fuzzing sys A numElts =
     (if \<not> numElts > 0 then Inl InvariantViolation
      else if \<not> numElts \<le> SIZE_MAX div sizeofT A then Inl InvariantViolation
      else
        (let numBytes = sizeofT A * numElts;
             numPaddedBytes = roundUp numBytes (alignment A)
         in if \<not> numPaddedBytes \<ge> numBytes then Inl InvariantViolation
            else
              (case alignedMalloc fuzzing sys numPaddedBytes (alignment A) of
                 Inl e \<Rightarrow> Inl e
               | Inr r \<Rightarrow>
                   if r = 0 then
                     Inl (RawspeedException
                            ''Out of memory while trying to allocate %zu bytes'')
                   else Inr r)))"

text \<open>The padded byte count that \<^verbatim>\<open>allocate\<close> passes on.\<close>

definition numPaddedBytes :: "AlignedAllocator \<Rightarrow> size_t \<Rightarrow> size_t" where
  "numPaddedBytes A numElts = roundUp (sizeofT A * numElts) (alignment A)"

text \<open>The invariants of \<^verbatim>\<open>allocate\<close> and \<^verbatim>\<open>alignedMalloc\<close> on a request.\<close>

definition request_ok :: "AlignedAllocator \<Rightarrow> size_t \<Rightarrow> bool" where
  "request_ok A numElts =
     (numElts > 0 \<and> numElts \<le> SIZE_MAX div sizeofT A \<and>
      numPaddedBytes A numElts \<ge> sizeofT A * numElts \<and>
      isPowerOfTwo (alignment A) \<and> isAligned (alignment A) sizeof_voidp \<and>
      isAligned (numPaddedBytes A numElts) (alignment A))"

text \<open>\<^verbatim>\<open>AlignedAllocator::deallocate\<close>.\<close>

definition deallocate :: "heap \<Rightarrow> size_t \<Rightarrow> size_t \<Rightarrow> error + heap" where
  "deallocate hp p k =
     (if \<not> p \<noteq> 0 then Inl InvariantViolation
      else if \<not> k > 0 then Inl InvariantViolation
      else alignedFree hp p)"

text \<open>The same call of \<^verbatim>\<open>alignedFree\<close>, \<open>k\<close> times in a row.\<close>

fun alignedFree_times :: "nat \<Rightarrow> heap \<Rightarrow> size_t \<Rightarrow> error + heap" where
  "alignedFree_times 0 hp p = Inr hp"
| "alignedFree_times (Suc k) hp p =
     (case alignedFree hp p of Inl e \<Rightarrow> Inl e | Inr hp' \<Rightarrow> alignedFree_times k hp' p)"

text \<open>
  An allocator of 16-bit values aligned to 16 bytes, and two platform
  allocators: one that always fails and one that hands out address 4096.
\<close>

definition u16_allocator :: AlignedAllocator where
  "u16_allocator = \<lparr>sizeofT = 2, alignofT = 2, alignment = 16\<rparr>"

definition sys_fails :: "size_t \<Rightarrow> size_t \<Rightarrow> size_t" where
  "sys_fails a sz = 0"

definition sys_page :: "size_t \<Rightarrow> size_t \<Rightarrow> size_t" where
  "sys_page a sz = 4096"

section \<open>OlympusDecompressor.cpp\<close>

subsection \<open>The image and the constructor\<close>

datatype RawImageType = UINT16 | F32

text \<open>
  Modelled from the spec: the image (RawImage.h is not among the sources).
  The spec has a buffer of width \<open>W\<close>, height \<open>H\<close>, \<open>cpp\<close> components
  per pixel and an element type; the decompressor uses the dimensions
  \<^verbatim>\<open>dim\<close> (an \<^verbatim>\<open>iPoint2D\<close>), the component count, the data type, the
  bytes per pixel, and the uncropped 16-bit data, here a list of rows.
\<close>

record RawImage =
  dim_x :: int
  dim_y :: int
  cpp :: nat
  dataType :: RawImageType
  bpp :: nat
  pixels :: "u16 list list"

text \<open>
  The constructor of \<^verbatim>\<open>OlympusDecompressor\<close>; the object holds the image.
  The dimensions are converted to \<^verbatim>\<open>uint32_t\<close> before the test.
\<close>

definition OlympusDecompressor_new :: "RawImage \<Rightarrow> error + RawImage" where
  "OlympusDecompressor_new mRaw =
     (if cpp mRaw \<noteq> 1 \<or> dataType mRaw \<noteq> UINT16 \<or> bpp mRaw \<noteq> 2 then
        Inl (RawDecoderException ''Unexpected component count / data type'')
      else
        (let w = (word_of_int (dim_x mRaw) :: u32);
             h = (word_of_int (dim_y mRaw) :: u32)
         in if w = 0 \<or> h = 0 \<or> w mod 2 \<noteq> 0 \<or> h mod 2 \<noteq> 0 \<or> w > 10400 \<or> h > 7792 then
              Inl (RawDecoderException ''Unexpected image dimensions found: (%u; %u)'')
            else Inr mRaw))"

text \<open>The dimensions that the spec calls valid.\<close>

definition valid_dims :: "int \<Rightarrow> int \<Rightarrow> bool" where
  "valid_dims W H = (W > 0 \<and> H > 0 \<and> even W \<and> even H \<and> W \<le> 10400 \<and> H \<le> 7792)"

text \<open>A single-component 16-bit image of the given dimensions, with its data allocated.\<close>

definition u16_image :: "int \<Rightarrow> int \<Rightarrow> u16 \<Rightarrow> RawImage" where
  "u16_image W H v =
     \<lparr>dim_x = W, dim_y = H, cpp = 1, dataType = UINT16, bpp = 2,
      pixels = replicate (nat H) (replicate (nat W) v)\<rparr>"

subsection \<open>The two-dimensional view\<close>

text \<open>
  Modelled from the spec: the view \<^verbatim>\<open>Array2DRef<uint16_t>\<close> (Array2DRef.h
  is not among the sources), which the spec gives as \<open>(row, col)\<close> to element
  for \<open>row\<close> in \<open>[0, H)\<close> and \<open>col\<close> in \<open>[0, W * cpp)\<close>.  Reading and
  writing \<^verbatim>\<open>out(row, col)\<close> outside these ranges is an access outside the
  buffer.  The value read is promoted to \<^verbatim>\<open>int\<close>.  Rows and columns are
  the loop counters of the decoder, which are never negative.
\<close>

definition Array2DRef_get :: "u16 list list \<Rightarrow> nat \<Rightarrow> nat \<Rightarrow> error + int" where
  "Array2DRef_get out row col =
     (if row < length out \<and> col < length (out ! row) then Inr (uint (out ! row ! col))
      else Inl OutOfBounds)"

definition Array2DRef_set :: "u16 list list \<Rightarrow> nat \<Rightarrow> nat \<Rightarrow> u16 \<Rightarrow> error + u16 list list" where
  "Array2DRef_set out row col v =
     (if row < length out \<and> col < length (out ! row) then
        Inr (out[row := (out ! row)[col := v]])
      else Inl OutOfBounds)"

text \<open>All rows of a buffer have one length.\<close>

definition rectangular :: "u16 list list \<Rightarrow> bool" where
  "rectangular out = list_all (\<lambda>r. length r = length (hd out)) out"

subsection \<open>The predictor\<close>

text \<open>\<^verbatim>\<open>std::signbit\<close> of an \<^verbatim>\<open>int\<close>.\<close>

definition signbit :: "int \<Rightarrow> bool" where
  "signbit x = (x < 0)"

text \<open>
  \<^verbatim>\<open>getPred\<close>.  The three lambdas read the buffer only in the branches
  that call them.
\<close>

definition getPred :: "u16 list list \<Rightarrow> nat \<Rightarrow> nat \<Rightarrow> error + int" where
  "getPred out row col =
     (let getLeft = Array2DRef_get out row (col - 2);
          getUp = Array2DRef_get out (row - 2) col;
          getLeftUp = Array2DRef_get out (row - 2) (col - 2)
      in if row < 2 \<and> col < 2 then Inr 0
         else if row < 2 then getLeft
         else if col < 2 then getUp
         else
           (case getLeft of
              Inl e \<Rightarrow> Inl e
            | Inr left \<Rightarrow>
                (case getUp of
                   Inl e \<Rightarrow> Inl e
                 | Inr up \<Rightarrow>
                     (case getLeftUp of
                        Inl e \<Rightarrow> Inl e
                      | Inr leftUp \<Rightarrow>
                          (let leftMinusNw = left - leftUp;
                               upMinusNw = up - leftUp
                           in if signbit leftMinusNw \<noteq> signbit upMinusNw \<and>
                                 (leftMinusNw \<noteq> 0 \<and> upMinusNw \<noteq> 0) then
                                (if \<bar>leftMinusNw\<bar> > 32 \<or> \<bar>upMinusNw\<bar> > 32 then
                                   Inr (left + upMinusNw)
                                 else Inr (drop_bit 1 (left + up)))
                              else
                                Inr (if \<bar>leftMinusNw\<bar> > \<bar>upMinusNw\<bar> then left
                                     else up))))))"

text \<open>
  The predictor in the words of the spec, over the samples as a function of
  row and column: 0 in the top-left corner, the sample two to the left in
  the first two rows, the sample two up in the first two columns, and
  otherwise chosen from \<open>L\<close>, \<open>U\<close>, \<open>LU\<close> by the signs and sizes of
  \<open>dL = L - LU\<close> and \<open>dU = U - LU\<close>.
\<close>

definition different_signs :: "int \<Rightarrow> int \<Rightarrow> bool" where
  "different_signs a b = ((a < 0 \<and> b > 0) \<or> (a > 0 \<and> b < 0))"

definition getPred_spec :: "(nat \<Rightarrow> nat \<Rightarrow> int) \<Rightarrow> nat \<Rightarrow> nat \<Rightarrow> int" where
  "getPred_spec sample row col =
     (if row < 2 \<and> col < 2 then 0
      else if row < 2 then sample row (col - 2)
      else if col < 2 then sample (row - 2) col
      else
        (let L = sample row (col - 2);
             U = sample (row - 2) col;
             LU = sample (row - 2) (col - 2);
             dL = L - LU;
             dU = U - LU
         in if different_signs dL dU then
              (if \<bar>dL\<bar> > 32 \<or> \<bar>dU\<bar> > 32 then L + dU else (L + U) div 2)
            else (if \<bar>dL\<bar> > \<bar>dU\<bar> then L else U)))"

text \<open>A buffer of three rows, to evaluate the predictor on.\<close>

definition pred_buffer :: "u16 list list" where
  "pred_buffer = [[20, 0, 25, 0], [0, 0, 0, 0], [10, 0, 0, 0]]"

subsection \<open>Bits and bytes\<close>

text \<open>
  Modelled from the spec: \<^verbatim>\<open>numActiveBits\<close> (Bit.h is not among the
  sources).  The spec applies it to the carry as a 16-bit value to get a
  number of bits; it is the bit width less the number of leading zero bits.
\<close>

fun countl_zero_below :: "nat \<Rightarrow> u16 \<Rightarrow> nat" where
  "countl_zero_below 0 v = 0"
| "countl_zero_below (Suc k) v = (if bit v k then 0 else Suc (countl_zero_below k v))"

definition numActiveBits :: "u16 \<Rightarrow> nat" where
  "numActiveBits v = 16 - countl_zero_below 16 v"

text \<open>
  Modelled from the spec: \<^verbatim>\<open>extractHighBits(value, nBits, effectiveBitwidth)\<close>
  (Bit.h is not among the sources).  By the spec, the table built with it
  holds the position of the first 1-bit from the top of the 12-bit value, 12
  when there is none; so it is the value without its
  \<open>effectiveBitwidth - nBits\<close> low bits.
\<close>

definition extractHighBits :: "nat \<Rightarrow> nat \<Rightarrow> nat \<Rightarrow> nat" where
  "extractHighBits v nBits effectiveBitwidth = drop_bit (effectiveBitwidth - nBits) v"

text \<open>
  The table \<^verbatim>\<open>bittable\<close>: entry \<open>i\<close> is what the lambda of its
  initialiser returns for \<open>i\<close>; \<open>bittable_scan\<close> is the loop of the lambda
  from \<open>high\<close> on.
\<close>

function bittable_scan :: "nat \<Rightarrow> nat \<Rightarrow> nat" where
  "bittable_scan i high =
     (if high < 12 then
        (if extractHighBits i high 11 AND 1 \<noteq> 0 then high
         else bittable_scan i (high + 1))
      else high)"
  by pat_completeness auto
termination
  by (relation "measure (\<lambda>(i, high). 12 - high)") auto

definition bittable :: "nat \<Rightarrow> int" where
  "bittable i = int (min 12 (bittable_scan i 0))"

text \<open>
  Modelled from the spec: the byte stream (ByteStream.h is not among the
  sources).  It is the bytes not yet consumed; \<^verbatim>\<open>skipBytes(n)\<close> advances
  or fails with \<open>IoEof\<close>.
\<close>

type_synonym ByteStream = "u8 list"

definition skipBytes :: "nat \<Rightarrow> ByteStream \<Rightarrow> error + ByteStream" where
  "skipBytes k input = (if length input < k then Inl IoEof else Inr (drop k input))"

text \<open>
  Modelled from the spec: the MSB bit reader (BitStreamerMSB.h is not among
  the sources).  The bytes are consumed most significant bit first, so the
  state is the list of the bits not yet consumed.  \<^verbatim>\<open>peek(n)\<close> is the next
  \<open>n\<close> bits as a right-justified unsigned integer, \<^verbatim>\<open>skip(n)\<close> discards
  \<open>n\<close> bits, \<^verbatim>\<open>get(n)\<close> is peek then skip, and the end of the stream
  while more bits are requested is the error \<open>TruncatedBitstream\<close>.
  \<^verbatim>\<open>fill()\<close> only moves bytes into the cache, which this state does not
  distinguish.
\<close>

type_synonym BitStreamerMSB = "bool list"

definition bits_of_byte :: "u8 \<Rightarrow> bool list" where
  "bits_of_byte b = map (bit b) [7, 6, 5, 4, 3, 2, 1, 0]"

definition BitStreamerMSB_new :: "u8 list \<Rightarrow> BitStreamerMSB" where
  "BitStreamerMSB_new input = concat (map bits_of_byte input)"

definition bits_value :: "bool list \<Rightarrow> int" where
  "bits_value bs = foldl (\<lambda>a b. 2 * a + (if b then 1 else 0)) 0 bs"

definition fill :: "BitStreamerMSB \<Rightarrow> BitStreamerMSB" where
  "fill bits = bits"

definition peekBitsNoFill :: "nat \<Rightarrow> BitStreamerMSB \<Rightarrow> error + int" where
  "peekBitsNoFill k bits =
     (if length bits < k then Inl TruncatedBitstream else Inr (bits_value (take k bits)))"

definition skipBitsNoFill :: "nat \<Rightarrow> BitStreamerMSB \<Rightarrow> error + BitStreamerMSB" where
  "skipBitsNoFill k bits =
     (if length bits < k then Inl TruncatedBitstream else Inr (drop k bits))"

definition getBitsNoFill :: "nat \<Rightarrow> BitStreamerMSB \<Rightarrow> error + (int \<times> BitStreamerMSB)" where
  "getBitsNoFill k bits =
     (case peekBitsNoFill k bits of
        Inl e \<Rightarrow> Inl e
      | Inr v \<Rightarrow> (case skipBitsNoFill k bits of Inl e \<Rightarrow> Inl e | Inr bits' \<Rightarrow> Inr (v, bits')))"

subsection \<open>Decoding a sample\<close>

text \<open>
  A carry is the \<^verbatim>\<open>std::array<int, 3>\<close> as a triple.  The values stay far
  inside the range of \<^verbatim>\<open>int\<close> (see \<open>carry_inv\<close> below), so the
  arithmetic is that of \<open>int\<close>; \<^verbatim>\<open>>>\<close> on a negative \<^verbatim>\<open>int\<close> is the
  arithmetic shift, which \<open>drop_bit\<close> is.
\<close>

type_synonym carry = "int \<times> int \<times> int"

text \<open>The value \<^verbatim>\<open>nbits\<close> that \<^verbatim>\<open>parseCarry\<close> computes first, and asserts to lie between 2 and 14.\<close>

definition carry_nbits :: "carry \<Rightarrow> int" where
  "carry_nbits carry =
     (case carry of (c0, c1, c2) \<Rightarrow>
        (let nbitsBias = (if c2 < 3 then 2 else 0);
             nbits0 = int (numActiveBits (word_of_int c0));
             nbits1 = nbits0 - nbitsBias
         in max nbits1 (2 + nbitsBias)))"

text \<open>The branch of \<^verbatim>\<open>parseCarry\<close> that skips the bits used or reads \<^verbatim>\<open>high\<close> from the stream.\<close>

definition parseCarry_high ::
  "int \<Rightarrow> int \<Rightarrow> BitStreamerMSB \<Rightarrow> error + (int \<times> BitStreamerMSB)" where
  "parseCarry_high nbits high bits =
     (if high = 12 then
        (case skipBitsNoFill 15 bits of
           Inl e \<Rightarrow> Inl e
         | Inr bits1 \<Rightarrow>
             (case getBitsNoFill (nat (16 - nbits)) bits1 of
                Inl e \<Rightarrow> Inl e
              | Inr (v, bits2) \<Rightarrow> Inr (drop_bit 1 v, bits2)))
      else
        (case skipBitsNoFill (nat (high + 1 + 3)) bits of
           Inl e \<Rightarrow> Inl e
         | Inr bits1 \<Rightarrow> Inr (high, bits1)))"

text \<open>\<^verbatim>\<open>parseCarry\<close>: the value returned, the bit reader and the carry afterwards.\<close>

definition parseCarry ::
  "BitStreamerMSB \<Rightarrow> carry \<Rightarrow> error + (int \<times> BitStreamerMSB \<times> carry)" where
  "parseCarry bits0 carry =
     (case carry of (c0, c1, c2) \<Rightarrow>
        (let bits = fill bits0;
             nbits = carry_nbits carry
         in case peekBitsNoFill 15 bits of
              Inl e \<Rightarrow> Inl e
            | Inr b \<Rightarrow>
                (let sign = drop_bit 14 b * (- 1);
                     low = drop_bit 12 b AND 3;
                     high = bittable (nat (b AND 4095))
                 in case parseCarry_high nbits high bits of
                      Inl e \<Rightarrow> Inl e
                    | Inr (high', bits1) \<Rightarrow>
                        (case getBitsNoFill (nat nbits) bits1 of
                           Inl e \<Rightarrow> Inl e
                         | Inr (lowbits, bits2) \<Rightarrow>
                             (let c0' = push_bit (nat nbits) high' OR lowbits;
                                  diff = (c0' XOR sign) + c1;
                                  c1' = drop_bit 5 (diff * 3 + c1);
                                  c2' = (if c0' > 16 then 0 else c2 + 1)
                              in Inr ((diff * 4) OR low, bits2, (c0', c1', c2')))))))"

text \<open>
  The carries that the decoder can reach: each starts as \<open>(0, 0, 0)\<close> and
  changes only by a call of \<^verbatim>\<open>parseCarry\<close> that returns, on whatever
  the bit reader holds.
\<close>

inductive reachable_carry :: "carry \<Rightarrow> bool" where
  initial: "reachable_carry (0, 0, 0)"
| step: "reachable_carry carry \<Longrightarrow> parseCarry bits carry = Inr (v, bits', carry') \<Longrightarrow>
           reachable_carry carry'"

text \<open>
  What holds of every reachable carry: \<open>carry[0]\<close> is not negative and
  below \<open>2^18\<close>, \<open>carry[1]\<close> is at most \<open>2^16\<close> in size, \<open>carry[2]\<close> is
  not negative, and \<open>carry[0] \<le> 16\<close> whenever \<open>carry[2] > 0\<close>.
\<close>

definition carry_inv :: "carry \<Rightarrow> bool" where
  "carry_inv carry =
     (case carry of (c0, c1, c2) \<Rightarrow>
        0 \<le> c0 \<and> c0 < 2 ^ 18 \<and> - (2 ^ 16) \<le> c1 \<and> c1 \<le> 2 ^ 16 \<and> 0 \<le> c2 \<and>
        (if c2 > 0 then c0 \<le> 16 else True))"

subsection \<open>Decoding a row and the frame\<close>

text \<open>The body of the inner loop of \<^verbatim>\<open>decompressRow\<close>, for one column and its carry.\<close>

definition decompressRow_sample ::
  "nat \<Rightarrow> nat \<Rightarrow> BitStreamerMSB \<Rightarrow> carry \<Rightarrow> u16 list list \<Rightarrow>
     error + (BitStreamerMSB \<times> carry \<times> u16 list list)" where
  "decompressRow_sample row col bits carry out =
     (case parseCarry bits carry of
        Inl e \<Rightarrow> Inl e
      | Inr (diff, bits', carry') \<Rightarrow>
          (case getPred out row col of
             Inl e \<Rightarrow> Inl e
           | Inr pred \<Rightarrow>
               (case Array2DRef_set out row col (word_of_int (pred + diff)) of
                  Inl e \<Rightarrow> Inl e
                | Inr out' \<Rightarrow> Inr (bits', carry', out'))))"

text \<open>
  The loop over the groups of \<^verbatim>\<open>decompressRow\<close>, from group \<open>grp\<close> on;
  the inner loop runs for \<open>c = 0\<close> and \<open>c = 1\<close>.  The counter runs upwards
  from 0 to \<open>numGroups\<close>, so \<^verbatim>\<open>group != numGroups\<close> is \<open>grp < numGroups\<close>.
\<close>

function decompressRow_groups ::
  "nat \<Rightarrow> nat \<Rightarrow> nat \<Rightarrow> BitStreamerMSB \<Rightarrow> carry \<times> carry \<Rightarrow> u16 list list \<Rightarrow>
     error + (BitStreamerMSB \<times> (carry \<times> carry) \<times> u16 list list)" where
  "decompressRow_groups numGroups grp row bits acarry out =
     (if grp < numGroups then
        (case decompressRow_sample row (2 * grp + 0) bits (fst acarry) out of
           Inl e \<Rightarrow> Inl e
         | Inr (bits1, carry0, out1) \<Rightarrow>
             (case decompressRow_sample row (2 * grp + 1) bits1 (snd acarry) out1 of
                Inl e \<Rightarrow> Inl e
              | Inr (bits2, carry1, out2) \<Rightarrow>
                  decompressRow_groups numGroups (grp + 1) row bits2 (carry0, carry1) out2))
      else Inr (bits, acarry, out))"
  by pat_completeness auto
termination
  by (relation "measure (\<lambda>(numGroups, grp, row, bits, acarry, out). numGroups - grp)") auto

text \<open>
  \<^verbatim>\<open>decompressRow\<close>.  The width of the view is that of the uncropped
  image.  Besides the bit reader and the buffer, the result holds the two
  carries as they are when the row ends.
\<close>

definition decompressRow ::
  "RawImage \<Rightarrow> BitStreamerMSB \<Rightarrow> nat \<Rightarrow>
     error + (BitStreamerMSB \<times> (carry \<times> carry) \<times> u16 list list)" where
  "decompressRow mRaw bits row =
     (let out = pixels mRaw;
          out_width = dim_x mRaw * int (cpp mRaw)
      in if \<not> out_width > 0 then Inl InvariantViolation
         else if \<not> out_width mod 2 = 0 then Inl InvariantViolation
         else decompressRow_groups (nat (out_width div 2)) 0 row bits ((0, 0, 0), (0, 0, 0)) out)"

text \<open>
  The loop over the rows of \<^verbatim>\<open>decompress\<close>, from row \<open>y\<close> on; \<open>ends\<close>
  collects the carries at the end of each row.
\<close>

function decompress_rows ::
  "nat \<Rightarrow> BitStreamerMSB \<Rightarrow> RawImage \<Rightarrow> (carry \<times> carry) list \<Rightarrow>
     error + (RawImage \<times> (carry \<times> carry) list)" where
  "decompress_rows y bits mRaw ends =
     (if int y < dim_y mRaw then
        (case decompressRow mRaw bits y of
           Inl e \<Rightarrow> Inl e
         | Inr (bits', acarry, out) \<Rightarrow>
             decompress_rows (y + 1) bits' (mRaw\<lparr>pixels := out\<rparr>) (ends @ [acarry]))
      else Inr (mRaw, ends))"
  by pat_completeness auto
termination
  by (relation "measure (\<lambda>(y, bits, mRaw, ends). nat (dim_y mRaw) - y)") auto

text \<open>
  \<^verbatim>\<open>decompress\<close>: the image afterwards, and the carries at the end of each
  row.
\<close>

definition decompress :: "RawImage \<Rightarrow> ByteStream \<Rightarrow> error + (RawImage \<times> (carry \<times> carry) list)" where
  "decompress mRaw input =
     (if \<not> dim_y mRaw > 0 then Inl InvariantViolation
      else if \<not> dim_x mRaw > 0 then Inl InvariantViolation
      else if \<not> dim_x mRaw mod 2 = 0 then Inl InvariantViolation
      else
        (case skipBytes 7 input of
           Inl e \<Rightarrow> Inl e
         | Inr rest \<Rightarrow> decompress_rows 0 (BitStreamerMSB_new rest) mRaw []))"

text \<open>The data is allocated: there are \<open>dim.y\<close> rows of \<open>dim.x * cpp\<close> values.\<close>

definition RawImage_allocated :: "RawImage \<Rightarrow> bool" where
  "RawImage_allocated mRaw =
     (length (pixels mRaw) = nat (dim_y mRaw) \<and>
      list_all (\<lambda>r. length r = nat (dim_x mRaw) * cpp mRaw) (pixels mRaw))"

section \<open>Fuji strips: results\<close>

text \<open>
  C7.  For every header and every strip index \<open>n\<close> with
  \<open>0 \<le> n < blocks_in_row\<close>, the width of the strip is \<open>block_size\<close> when
  \<open>n < blocks_in_row - 1\<close>, and \<open>raw_width - n * block_size\<close> when the
  strip is the last one.
\<close>

theorem FujiStrip_width:
  assumes "0 \<le> k" and "k < uint (blocks_in_row fh)"
  shows "(k < uint (blocks_in_row fh) - 1 \<longrightarrow>
            width (strip_of fh k) = uint (block_size fh)) \<and>
         (k + 1 = uint (blocks_in_row fh) \<longrightarrow>
            width (strip_of fh k) = uint (raw_width fh) - k * uint (block_size fh))"
  using assms by (simp add: width_def offsetX_def strip_of_def mult.commute)

theorem FujiStrip_width_witness:
  "width (strip_of wide_header 0) = 768 \<and> width (strip_of wide_header 1) = 732"
proof -
  have a: "width (strip_of wide_header 0) = uint (block_size wide_header)"
    using FujiStrip_width [of 0 wide_header] by (simp add: wide_header_def)
  have b: "width (strip_of wide_header 1) =
             uint (raw_width wide_header) - 1 * uint (block_size wide_header)"
    using FujiStrip_width [of 1 wide_header] by (simp add: wide_header_def)
  show ?thesis using a b by (simp add: wide_header_def)
qed

subsection \<open>The strips of a valid header\<close>

lemma valid_facts:
  assumes "FujiHeader_valid fh"
  shows "0 < uint (block_size fh)"
    and "0 < uint (raw_width fh)"
    and "1 \<le> uint (blocks_in_row fh)"
    and "uint (raw_width fh) \<le> uint (blocks_in_row fh) * uint (block_size fh)"
proof -
  let ?b = "uint (block_size fh)" and ?r = "uint (raw_rounded_width fh)"
  show b: "0 < ?b" and w: "0 < uint (raw_width fh)"
    using assms by (simp_all add: FujiHeader_valid_def word_less_def)
  have r: "uint (raw_width fh) \<le> ?r"
    using assms by (simp add: FujiHeader_valid_def word_le_def)
  have B: "uint (blocks_in_row fh) = (?r + ?b - 1) div ?b"
    using assms by (simp add: FujiHeader_valid_def roundUpDivision_def)
  have "?b \<le> ?r + ?b - 1" using r w by simp
  then have "0 < (?r + ?b - 1) div ?b" using b by (simp add: pos_imp_zdiv_pos_iff)
  then show "1 \<le> uint (blocks_in_row fh)" using B by simp
  have "(?r + ?b - 1) mod ?b < ?b" using b by simp
  moreover have "?r + ?b - 1 = (?r + ?b - 1) div ?b * ?b + (?r + ?b - 1) mod ?b" by simp
  ultimately have "?r \<le> (?r + ?b - 1) div ?b * ?b" by linarith
  then show "uint (raw_width fh) \<le> uint (blocks_in_row fh) * uint (block_size fh)"
    using r B by simp
qed

lemma width_assert_valid:
  assumes "FujiHeader_valid fh"
  shows "width_assert (strip_of fh k)"
  using valid_facts(4) [OF assms] by (simp add: width_assert_def strip_of_def mult.commute)

lemma strip_range_inner:
  assumes "k + 1 \<noteq> uint (blocks_in_row fh)"
  shows "strip_range fh k = {uint (block_size fh) * k ..< uint (block_size fh) * (k + 1)}"
  using assms by (simp add: strip_range_def width_def offsetX_def strip_of_def algebra_simps)

lemma strip_range_last:
  assumes "k + 1 = uint (blocks_in_row fh)"
  shows "strip_range fh k = {uint (block_size fh) * k ..< uint (raw_width fh)}"
  using assms by (simp add: strip_range_def width_def offsetX_def strip_of_def)

lemma strip_range_subset:
  assumes b: "0 < uint (block_size fh)"
    and le: "uint (raw_width fh) \<le> uint (blocks_in_row fh) * uint (block_size fh)"
    and k: "0 \<le> k" "k < uint (blocks_in_row fh)"
  shows "strip_range fh k \<subseteq> {uint (block_size fh) * k ..< uint (block_size fh) * (k + 1)}"
proof (cases "k + 1 = uint (blocks_in_row fh)")
  case True
  then show ?thesis using le by (simp add: strip_range_last mult.commute)
next
  case False
  then show ?thesis by (simp add: strip_range_inner)
qed

lemma blocks_disjoint:
  fixes b :: int
  assumes "0 < b" "i < j"
  shows "{b * i ..< b * (i + 1)} \<inter> {b * j ..< b * (j + 1)} = {}"
proof -
  have "b * (i + 1) \<le> b * j" using assms by (simp add: mult_left_mono)
  then show ?thesis by auto
qed

text \<open>
  C3, as stated, fails: the validity predicate bounds \<open>blocks_in_row\<close> by
  \<open>raw_rounded_width\<close> only.  A header with \<open>raw_width = 600\<close>,
  \<open>raw_rounded_width = 1536\<close> and \<open>block_size = 768\<close> is valid, its
  second strip has width \<open>600 - 768\<close>, and its first strip reaches past
  \<open>raw_width\<close>.
\<close>

theorem Fuji_strips_counterexample:
  "FujiHeader_valid narrow_header \<and>
   \<not> 0 < width (strip_of narrow_header 1) \<and>
   (\<Union>i\<in>{0..<uint (blocks_in_row narrow_header)}. strip_range narrow_header i)
      \<noteq> {0..<uint (raw_width narrow_header)}"
proof (intro conjI)
  show "FujiHeader_valid narrow_header"
    by (simp add: FujiHeader_valid_def narrow_header_def roundUpDivision_def)
  show "\<not> 0 < width (strip_of narrow_header 1)"
    by (simp add: width_def strip_of_def offsetX_def narrow_header_def)
  have "700 \<in> strip_range narrow_header 0"
    by (simp add: strip_range_def width_def strip_of_def offsetX_def narrow_header_def)
  moreover have "(0::int) \<in> {0..<uint (blocks_in_row narrow_header)}"
    by (simp add: narrow_header_def)
  ultimately have "700 \<in> (\<Union>i\<in>{0..<uint (blocks_in_row narrow_header)}. strip_range narrow_header i)"
    by blast
  moreover have "700 \<notin> {0..<uint (raw_width narrow_header)}"
    by (simp add: narrow_header_def)
  ultimately show "(\<Union>i\<in>{0..<uint (blocks_in_row narrow_header)}. strip_range narrow_header i)
      \<noteq> {0..<uint (raw_width narrow_header)}" by metis
qed

text \<open>
  C3, as amended.  For every header that satisfies the validity predicate and
  whose last strip starts left of \<open>raw_width\<close>
  (\<open>(blocks_in_row - 1) * block_size < raw_width\<close>), the horizontal ranges
  \<open>[offsetX, offsetX + width)\<close> of the \<open>blocks_in_row\<close> strips are
  pairwise disjoint, every width is positive, and the union of the ranges is
  \<open>[0, raw_width)\<close>.
\<close>

theorem Fuji_strips_partition:
  assumes v: "FujiHeader_valid fh"
    and last: "(uint (blocks_in_row fh) - 1) * uint (block_size fh) < uint (raw_width fh)"
  shows "(\<forall>i\<in>{0..<uint (blocks_in_row fh)}. \<forall>j\<in>{0..<uint (blocks_in_row fh)}.
            i \<noteq> j \<longrightarrow> strip_range fh i \<inter> strip_range fh j = {}) \<and>
         (\<forall>i\<in>{0..<uint (blocks_in_row fh)}. 0 < width (strip_of fh i)) \<and>
         (\<Union>i\<in>{0..<uint (blocks_in_row fh)}. strip_range fh i) = {0..<uint (raw_width fh)}"
proof (intro conjI ballI impI)
  let ?B = "uint (blocks_in_row fh)" and ?b = "uint (block_size fh)"
  let ?w = "uint (raw_width fh)"
  note f = valid_facts [OF v]
  {
    fix i j assume i: "i \<in> {0..<?B}" and j: "j \<in> {0..<?B}" and ne: "i \<noteq> j"
    have si: "strip_range fh i \<subseteq> {?b * i ..< ?b * (i + 1)}"
      using i f by (intro strip_range_subset) simp_all
    have sj: "strip_range fh j \<subseteq> {?b * j ..< ?b * (j + 1)}"
      using j f by (intro strip_range_subset) simp_all
    have "{?b * i ..< ?b * (i + 1)} \<inter> {?b * j ..< ?b * (j + 1)} = {}"
    proof (cases "i < j")
      case True
      then show ?thesis using f(1) by (rule blocks_disjoint [rotated])
    next
      case False
      then have "j < i" using ne by simp
      then have "{?b * j ..< ?b * (j + 1)} \<inter> {?b * i ..< ?b * (i + 1)} = {}"
        using f(1) by (rule blocks_disjoint [rotated])
      then show ?thesis by (simp add: Int_commute)
    qed
    then show "strip_range fh i \<inter> strip_range fh j = {}" using si sj by blast
  }
  {
    fix i assume i: "i \<in> {0..<?B}"
    show "0 < width (strip_of fh i)"
    proof (cases "i + 1 = ?B")
      case True
      then have "?B - 1 = i" by simp
      then have "i * ?b < ?w" using last by simp
      then show ?thesis using True
        by (simp add: width_def offsetX_def strip_of_def mult.commute)
    next
      case False
      then show ?thesis using f(1) by (simp add: width_def strip_of_def)
    qed
  }
  show "(\<Union>i\<in>{0..<?B}. strip_range fh i) = {0..<?w}"
  proof (intro equalityI subsetI)
    fix x assume "x \<in> (\<Union>i\<in>{0..<?B}. strip_range fh i)"
    then obtain i where i: "0 \<le> i" "i < ?B" and x: "x \<in> strip_range fh i" by auto
    show "x \<in> {0..<?w}"
    proof (cases "i + 1 = ?B")
      case True
      have "0 \<le> ?b * i" using i f(1) by simp
      then show ?thesis using x True by (simp add: strip_range_last)
    next
      case False
      then have "i + 1 \<le> ?B - 1" using i by simp
      then have "?b * (i + 1) \<le> ?b * (?B - 1)" using f(1) by (simp add: mult_left_mono)
      moreover have "0 \<le> ?b * i" using i f(1) by simp
      ultimately show ?thesis using x False last by (simp add: strip_range_inner mult.commute)
    qed
  next
    fix x assume x: "x \<in> {0..<?w}"
    show "x \<in> (\<Union>i\<in>{0..<?B}. strip_range fh i)"
    proof (cases "x < ?b * (?B - 1)")
      case True
      let ?i = "x div ?b"
      have m: "0 \<le> x mod ?b" "x mod ?b < ?b" using f(1) by simp_all
      have d: "x = ?b * ?i + x mod ?b" by simp
      have lo: "?b * ?i \<le> x" using m(1) d by linarith
      have "x < ?b * ?i + ?b" using m(2) d by linarith
      then have hi: "x < ?b * (?i + 1)" by (simp add: algebra_simps)
      have "?i < ?B - 1"
      proof (rule ccontr)
        assume "\<not> ?i < ?B - 1"
        then have "?b * (?B - 1) \<le> ?b * ?i" using f(1) by (simp add: mult_left_mono)
        then show False using lo True by simp
      qed
      moreover have "0 \<le> ?i" using x f(1) by (simp add: pos_imp_zdiv_nonneg_iff)
      ultimately have "?i \<in> {0..<?B}" and "?i + 1 \<noteq> ?B" by simp_all
      moreover from \<open>?i + 1 \<noteq> ?B\<close> have "x \<in> strip_range fh ?i"
        using lo hi by (simp add: strip_range_inner)
      ultimately show ?thesis by blast
    next
      case False
      have "?B - 1 \<in> {0..<?B}" using f(3) by simp
      moreover have "x \<in> strip_range fh (?B - 1)"
        using False x by (simp add: strip_range_last)
      ultimately show ?thesis by blast
    qed
  qed
qed

theorem Fuji_strips_partition_witness:
  "strip_range wide_header 0 \<inter> strip_range wide_header 1 = {} \<and>
   0 < width (strip_of wide_header 1) \<and>
   strip_range wide_header 0 \<union> strip_range wide_header 1 = {0..<1500}"
proof -
  have v: "FujiHeader_valid wide_header"
    by (simp add: FujiHeader_valid_def wide_header_def roundUpDivision_def)
  have l: "(uint (blocks_in_row wide_header) - 1) * uint (block_size wide_header)
             < uint (raw_width wide_header)"
    by (simp add: wide_header_def)
  have B: "{0..<uint (blocks_in_row wide_header)} = {0, 1}"
    by (auto simp add: wide_header_def)
  have w: "uint (raw_width wide_header) = 1500" by (simp add: wide_header_def)
  show ?thesis using Fuji_strips_partition [OF v l] unfolding B w by simp
qed

section \<open>TableLookUp: results\<close>

declare setTable_plain.simps [simp del] setTable_dither.simps [simp del]
  setTable_fill.simps [simp del]

lemma TableLookUp_new_wf:
  assumes "TableLookUp_new nt d = Inr t"
  shows "TableLookUp_wf t \<and> ntables t = nt \<and> dither t = d"
  using assms
  by (auto simp add: TableLookUp_new_def TableLookUp_wf_def nat_mult_distrib
      split: if_splits)

lemma length_setTable_plain:
  "length (setTable_plain i table base tabs) = length tabs"
proof (induction i table base tabs rule: setTable_plain.induct)
  case (1 i table base tabs)
  show ?case
  proof (cases "i < TABLE_MAX_ELTS")
    case True
    then show ?thesis using "1.IH" by (subst setTable_plain.simps) simp
  next
    case False
    then show ?thesis by (subst setTable_plain.simps) simp
  qed
qed

lemma setTable_plain_nth:
  assumes "m < length tabs"
  shows "setTable_plain i table base tabs ! m =
           (if base + i \<le> m \<and> m < base + TABLE_MAX_ELTS then
              (if m - base < length table then table ! (m - base)
               else table ! (length table - 1))
            else tabs ! m)"
  using assms
proof (induction i table base tabs rule: setTable_plain.induct)
  case (1 i table base tabs)
  show ?case
  proof (cases "i < TABLE_MAX_ELTS")
    case True
    let ?tabs = "tabs[base + i := (if i < length table then table ! i
                             else table ! (length table - 1))]"
    have "setTable_plain i table base tabs ! m = setTable_plain (i + 1) table base ?tabs ! m"
      using True by (subst setTable_plain.simps) simp
    also have "\<dots> = (if base + (i + 1) \<le> m \<and> m < base + TABLE_MAX_ELTS then
              (if m - base < length table then table ! (m - base)
               else table ! (length table - 1))
            else ?tabs ! m)"
      using "1.IH" [OF True] "1.prems" by simp
    finally show ?thesis using True "1.prems"
      by (cases "m = base + i") (auto simp add: nth_list_update)
  next
    case False
    then show ?thesis by (subst setTable_plain.simps) auto
  qed
qed

lemma setTable_dither_entry_total:
  "\<exists>c d. setTable_dither_entry table i = Inr (c, d)"
proof -
  have "min a b \<le> max c b" for a b c :: int
    by (rule order_trans [OF min.cobounded2 max.cobounded2])
  then show ?thesis by (simp add: setTable_dither_entry_def Let_def)
qed

lemma setTable_dither_total:
  "\<exists>tabs'. setTable_dither i table base tabs = Inr tabs' \<and> length tabs' = length tabs"
proof (induction i table base tabs rule: setTable_dither.induct)
  case (1 i table base tabs)
  show ?case
  proof (cases "i < length table")
    case True
    obtain c d where e: "setTable_dither_entry table i = Inr (c, d)"
      using setTable_dither_entry_total by blast
    from "1.IH" [OF True e refl]
    show ?thesis using True e
      by (subst setTable_dither.simps) simp
  next
    case False
    then show ?thesis by (subst setTable_dither.simps) simp
  qed
qed

lemma length_setTable_fill:
  "length (setTable_fill i table base tabs) = length tabs"
proof (induction i table base tabs rule: setTable_fill.induct)
  case (1 i table base tabs)
  show ?case
  proof (cases "i < TABLE_MAX_ELTS")
    case True
    then show ?thesis using "1.IH" by (subst setTable_fill.simps) simp
  next
    case False
    then show ?thesis by (subst setTable_fill.simps) simp
  qed
qed

lemma setTable_wf:
  assumes "TableLookUp_wf t" "setTable t k v = Inr t'"
  shows "TableLookUp_wf t'"
proof -
  obtain base where b: "table_row t k = Inr base"
    using assms(2) by (auto simp add: setTable_def Let_def split: if_splits sum.splits)
  obtain tabs where d: "setTable_dither 0 v base (tables t) = Inr tabs"
    "length tabs = length (tables t)"
    using setTable_dither_total by blast
  have "length (tables t') = length (tables t) \<and> ntables t' = ntables t"
    using assms(2) b d
    by (auto simp add: setTable_def Let_def length_setTable_plain length_setTable_fill
        split: if_splits sum.splits)
  then show ?thesis using assms(1) by (simp add: TableLookUp_wf_def)
qed

lemma table_row_in_range:
  assumes "TableLookUp_wf t" "0 \<le> k" "k < ntables t"
  shows "table_row t k = Inr (nat k * TABLE_SIZE)"
    and "nat k * TABLE_SIZE + TABLE_SIZE \<le> length (tables t)"
proof -
  show "table_row t k = Inr (nat k * TABLE_SIZE)" using assms by (simp add: table_row_def)
  have "nat k + 1 \<le> nat (ntables t)" using assms by simp
  then have "(nat k + 1) * TABLE_SIZE \<le> nat (ntables t) * TABLE_SIZE"
    by (rule mult_le_mono1)
  then show "nat k * TABLE_SIZE + TABLE_SIZE \<le> length (tables t)"
    using assms(1) by (simp add: TableLookUp_wf_def)
qed

text \<open>
  C2.  In non-dither mode, for every table index in range and every source
  vector \<open>v\<close> of length \<open>L\<close> with \<open>1 \<le> L \<le> 65536\<close>,
  \<^verbatim>\<open>setTable\<close> succeeds and afterwards entry \<open>i\<close> of the table is
  \<open>v[min(i, L - 1)]\<close> for every \<open>i < 65536\<close>: all entries are written,
  and those past \<open>L - 1\<close> repeat the last source value.
\<close>

theorem setTable_non_dither:
  assumes wf: "TableLookUp_wf t" and nd: "\<not> dither t"
    and k: "0 \<le> k" "k < ntables t"
    and v: "1 \<le> length v" "length v \<le> 65536"
  shows "\<exists>t' row. setTable t k v = Inr t' \<and> TableLookUp_wf t' \<and>
           getTable t' k = Inr row \<and>
           (\<forall>i<65536. row ! i = v ! min i (length v - 1))"
proof -
  let ?base = "nat k * TABLE_SIZE"
  let ?tabs = "setTable_plain 0 v ?base (tables t)"
  let ?t = "t\<lparr>tables := ?tabs\<rparr>"
  note r = table_row_in_range [OF wf k]
  have ne: "v \<noteq> []" using v by auto
  have s: "setTable t k v = Inr ?t"
    using v k nd ne r(1) by (simp add: setTable_def TABLE_MAX_ELTS_def)
  have wf': "TableLookUp_wf ?t"
    using wf by (simp add: TableLookUp_wf_def length_setTable_plain)
  have g: "getTable ?t k = Inr (take TABLE_SIZE (drop ?base ?tabs))"
    using k r(1) by (simp add: getTable_def table_row_def)
  have "take TABLE_SIZE (drop ?base ?tabs) ! i = v ! min i (length v - 1)"
    if i: "i < 65536" for i
  proof -
    have m: "?base + i < length (tables t)"
      using r(2) i by (simp add: TABLE_SIZE_def TABLE_MAX_ELTS_def)
    have "take TABLE_SIZE (drop ?base ?tabs) ! i = ?tabs ! (?base + i)"
      using m i by (simp add: TABLE_SIZE_def TABLE_MAX_ELTS_def length_setTable_plain)
    also have "\<dots> = (if i < length v then v ! i else v ! (length v - 1))"
      using m i by (simp add: setTable_plain_nth TABLE_MAX_ELTS_def)
    also have "\<dots> = v ! min i (length v - 1)"
      using v by (auto simp add: min_def)
    finally show ?thesis .
  qed
  then show ?thesis using s wf' g by blast
qed

theorem setTable_non_dither_witness:
  "\<exists>t' row. setTable (one_table False) 0 [7, 9] = Inr t' \<and>
      getTable t' 0 = Inr row \<and> row ! 0 = 7 \<and> row ! 1 = 9 \<and> row ! 65535 = 9"
proof -
  have wf: "TableLookUp_wf (one_table False)"
    by (simp add: TableLookUp_wf_def one_table_def)
  have nd: "\<not> dither (one_table False)" by (simp add: one_table_def)
  have k: "(0::int) \<le> 0" "0 < ntables (one_table False)" by (simp_all add: one_table_def)
  have v: "1 \<le> length [7, 9 :: u16]" "length [7, 9 :: u16] \<le> 65536" by simp_all
  from setTable_non_dither [OF wf nd k v]
  obtain t' row where a: "setTable (one_table False) 0 [7, 9] = Inr t'"
    "getTable t' 0 = Inr row" and b: "\<forall>i<65536. row ! i = [7, 9] ! min i (length [7, 9 :: u16] - 1)"
    by blast
  have "row ! 0 = 7" "row ! 1 = 9" "row ! 65535 = 9"
    using b [rule_format, of 0] b [rule_format, of 1] b [rule_format, of 65535] by simp_all
  then show ?thesis using a by blast
qed


text \<open>
  C10.  With a source vector of valid length, \<^verbatim>\<open>setTable(n, v)\<close> and
  \<^verbatim>\<open>getTable(n)\<close> throw exactly when \<open>n > ntables\<close>.  The call with
  \<open>n = ntables\<close> passes the check, and its row lies outside the
  \<open>ntables\<close> rows of the table array; for \<open>0 \<le> n < ntables\<close> the row is
  inside and both calls succeed.
\<close>

theorem table_index_check:
  assumes wf: "TableLookUp_wf t" and v: "1 \<le> length v" "length v \<le> 65536"
  shows "((\<exists>msg. setTable t k v = Inl (RawDecoderException msg)) \<longleftrightarrow> k > ntables t) \<and>
         ((\<exists>msg. getTable t k = Inl (RawDecoderException msg)) \<longleftrightarrow> k > ntables t) \<and>
         (k = ntables t \<longrightarrow>
            setTable t k v = Inl OutOfBounds \<and> getTable t k = Inl OutOfBounds) \<and>
         (0 \<le> k \<and> k < ntables t \<longrightarrow>
            (\<exists>t'. setTable t k v = Inr t') \<and>
            (\<exists>row. getTable t k = Inr row \<and> length row = TABLE_SIZE))"
proof -
  have ne: "v \<noteq> []" and le: "\<not> length v > TABLE_MAX_ELTS"
    using v by (auto simp add: TABLE_MAX_ELTS_def)
  have above: "setTable t k v =
      Inl (RawDecoderException ''Table lookup with number greater than number of tables.'')"
    "getTable t k =
      Inl (RawDecoderException ''Table lookup with number greater than number of tables.'')"
    if "k > ntables t"
    using that le by (simp_all add: setTable_def getTable_def)
  have edge: "setTable t k v = Inl OutOfBounds" "getTable t k = Inl OutOfBounds"
    if "k = ntables t \<or> k < 0"
    using that le wf by (auto simp add: setTable_def getTable_def table_row_def TableLookUp_wf_def)
  have inside: "\<exists>t'. setTable t k v = Inr t'"
    "\<exists>row. getTable t k = Inr row \<and> length row = TABLE_SIZE"
    if k: "0 \<le> k" "k < ntables t"
  proof -
    note r = table_row_in_range [OF wf k]
    obtain tabs' where d: "setTable_dither 0 v (nat k * TABLE_SIZE) (tables t) = Inr tabs'"
      using setTable_dither_total by blast
    show "\<exists>t'. setTable t k v = Inr t'"
      using k le ne r(1) d by (cases "dither t") (simp_all add: setTable_def)
    show "\<exists>row. getTable t k = Inr row \<and> length row = TABLE_SIZE"
      using k r by (simp add: getTable_def)
  qed
  have "k > ntables t \<or> k = ntables t \<or> k < 0 \<or> (0 \<le> k \<and> k < ntables t)" by linarith
  then show ?thesis
  proof (elim disjE)
    assume "k > ntables t"
    then show ?thesis using above by simp
  next
    assume "k = ntables t"
    then show ?thesis using edge by simp
  next
    assume "k < 0"
    then show ?thesis using edge wf by (simp add: TableLookUp_wf_def)
  next
    assume "0 \<le> k \<and> k < ntables t"
    then show ?thesis using inside by auto
  qed
qed

theorem table_index_check_witness:
  "setTable (one_table True) 1 [7] = Inl OutOfBounds \<and>
   getTable (one_table True) 1 = Inl OutOfBounds \<and>
   (\<exists>msg. setTable (one_table True) 2 [7] = Inl (RawDecoderException msg)) \<and>
   (\<exists>t'. setTable (one_table True) 0 [7] = Inr t')"
proof -
  have wf: "TableLookUp_wf (one_table True)"
    by (simp add: TableLookUp_wf_def one_table_def)
  have v: "1 \<le> length [7 :: u16]" "length [7 :: u16] \<le> 65536" by simp_all
  have n: "ntables (one_table True) = 1" by (simp add: one_table_def)
  show ?thesis
    using table_index_check [OF wf v, of 1] table_index_check [OF wf v, of 2]
      table_index_check [OF wf v, of 0]
    unfolding n by simp
qed

section \<open>AlignedAllocator: results\<close>

lemma alignedMalloc_ok:
  assumes "request_ok A k"
  shows "alignedMalloc fz sys (numPaddedBytes A k) (alignment A) =
           (if fz \<and> numPaddedBytes A k > 2 ^ 31 then Inr 0
            else if \<not> isAligned (sys (alignment A) (numPaddedBytes A k)) (alignment A)
              then Inl InvariantViolation
            else Inr (sys (alignment A) (numPaddedBytes A k)))"
  using assms by (simp add: alignedMalloc_def request_ok_def Let_def)

lemma allocate_ok:
  assumes "request_ok A k"
  shows "allocate fz sys A k =
           (case alignedMalloc fz sys (numPaddedBytes A k) (alignment A) of
              Inl e \<Rightarrow> Inl e
            | Inr r \<Rightarrow>
                if r = 0 then
                  Inl (RawspeedException ''Out of memory while trying to allocate %zu bytes'')
                else Inr r)"
  using assms by (simp add: allocate_def request_ok_def numPaddedBytes_def Let_def)

lemma allocate_Inr:
  assumes "allocate fz sys A k = Inr p"
  shows "p \<noteq> 0 \<and> isPowerOfTwo (alignment A) \<and> isAligned p (alignment A)"
  using assms
  by (auto simp add: allocate_def alignedMalloc_def Let_def split: if_splits sum.splits)

text \<open>
  C8.  For a request that meets the invariants of \<^verbatim>\<open>allocate\<close> and
  \<^verbatim>\<open>alignedMalloc\<close>: \<^verbatim>\<open>allocate\<close> throws the out-of-memory
  exception exactly when \<^verbatim>\<open>alignedMalloc\<close> yields the null pointer; in
  fuzzing mode every request of more than \<open>2^31\<close> padded bytes yields null
  and so throws; otherwise \<^verbatim>\<open>alignedMalloc\<close> yields null exactly when the
  platform's allocation does; and a pointer that \<^verbatim>\<open>allocate\<close> returns is
  not null and is aligned to the alignment, a power of two.
\<close>

theorem allocate_out_of_memory:
  assumes ok: "request_ok A k"
  shows "(allocate fz sys A k =
            Inl (RawspeedException ''Out of memory while trying to allocate %zu bytes'') \<longleftrightarrow>
          alignedMalloc fz sys (numPaddedBytes A k) (alignment A) = Inr 0) \<and>
         (fz \<and> numPaddedBytes A k > 2 ^ 31 \<longrightarrow>
            alignedMalloc fz sys (numPaddedBytes A k) (alignment A) = Inr 0 \<and>
            allocate fz sys A k =
              Inl (RawspeedException ''Out of memory while trying to allocate %zu bytes'')) \<and>
         (\<not> (fz \<and> numPaddedBytes A k > 2 ^ 31) \<longrightarrow>
            (alignedMalloc fz sys (numPaddedBytes A k) (alignment A) = Inr 0 \<longleftrightarrow>
             sys (alignment A) (numPaddedBytes A k) = 0)) \<and>
         (\<forall>p. allocate fz sys A k = Inr p \<longrightarrow>
            p \<noteq> 0 \<and> isPowerOfTwo (alignment A) \<and> isAligned p (alignment A))"
proof (intro conjI)
  show "allocate fz sys A k =
            Inl (RawspeedException ''Out of memory while trying to allocate %zu bytes'') \<longleftrightarrow>
          alignedMalloc fz sys (numPaddedBytes A k) (alignment A) = Inr 0"
    by (simp add: allocate_ok [OF ok] alignedMalloc_ok [OF ok])
  show "fz \<and> numPaddedBytes A k > 2 ^ 31 \<longrightarrow>
            alignedMalloc fz sys (numPaddedBytes A k) (alignment A) = Inr 0 \<and>
            allocate fz sys A k =
              Inl (RawspeedException ''Out of memory while trying to allocate %zu bytes'')"
    by (simp add: allocate_ok [OF ok] alignedMalloc_ok [OF ok])
  show "\<not> (fz \<and> numPaddedBytes A k > 2 ^ 31) \<longrightarrow>
            (alignedMalloc fz sys (numPaddedBytes A k) (alignment A) = Inr 0 \<longleftrightarrow>
             sys (alignment A) (numPaddedBytes A k) = 0)"
    by (auto simp add: alignedMalloc_ok [OF ok] isAligned_def)
  show "\<forall>p. allocate fz sys A k = Inr p \<longrightarrow>
            p \<noteq> 0 \<and> isPowerOfTwo (alignment A) \<and> isAligned p (alignment A)"
    using allocate_Inr by blast
qed

lemma u16_request_ok:
  "request_ok u16_allocator 100" "request_ok u16_allocator 1073741825"
  by (simp_all add: request_ok_def u16_allocator_def SIZE_MAX_def numPaddedBytes_def
      roundUp_def isPowerOfTwo_def isAligned_def sizeof_voidp_def)

theorem allocate_out_of_memory_witness:
  "allocate False sys_fails u16_allocator 100 =
     Inl (RawspeedException ''Out of memory while trying to allocate %zu bytes'') \<and>
   allocate True sys_page u16_allocator 1073741825 =
     Inl (RawspeedException ''Out of memory while trying to allocate %zu bytes'') \<and>
   allocate True sys_page u16_allocator 100 = Inr 4096 \<and>
   isAligned 4096 (alignment u16_allocator)"
proof -
  have p: "numPaddedBytes u16_allocator 100 = 208"
    "numPaddedBytes u16_allocator 1073741825 = 2147483664"
    by (simp_all add: numPaddedBytes_def u16_allocator_def roundUp_def)
  have a: "allocate False sys_fails u16_allocator 100 =
     Inl (RawspeedException ''Out of memory while trying to allocate %zu bytes'')"
    using allocate_out_of_memory [OF u16_request_ok(1), of False sys_fails]
    by (simp add: p alignedMalloc_def sys_fails_def u16_allocator_def isPowerOfTwo_def
        isAligned_def sizeof_voidp_def)
  have b: "allocate True sys_page u16_allocator 1073741825 =
     Inl (RawspeedException ''Out of memory while trying to allocate %zu bytes'')"
    using allocate_out_of_memory [OF u16_request_ok(2), of True sys_page]
    by (simp add: p)
  have c: "allocate True sys_page u16_allocator 100 = Inr 4096"
    by (simp add: allocate_def alignedMalloc_def sys_page_def u16_allocator_def SIZE_MAX_def
        roundUp_def isPowerOfTwo_def isAligned_def sizeof_voidp_def)
  have d: "isAligned 4096 (alignment u16_allocator)"
    using allocate_out_of_memory [OF u16_request_ok(1), of True sys_page] c by simp
  show ?thesis using a b c d by simp
qed

text \<open>
  C9, as stated, fails for \<^verbatim>\<open>AlignedAllocator::deallocate\<close>: its first
  statement is \<^verbatim>\<open>invariant(p)\<close>, so a call with a null pointer is not
  permitted.
\<close>

theorem deallocate_null_counterexample:
  "deallocate {} 0 1 = Inl InvariantViolation \<and> deallocate {} 0 1 \<noteq> Inr {}"
  by (simp add: deallocate_def)

lemma alignedFree_times_null: "alignedFree_times k hp 0 = Inr hp"
  by (induction k) (simp_all add: alignedFree_def)

text \<open>
  C9, as amended.  \<^verbatim>\<open>impl::alignedFree\<close> on a null pointer succeeds and
  leaves the heap as it was, however many times it is repeated;
  \<^verbatim>\<open>AlignedAllocator::deallocate\<close> on a null pointer violates its
  invariant.
\<close>

theorem alignedFree_null:
  "alignedFree hp 0 = Inr hp \<and> alignedFree_times k hp 0 = Inr hp \<and>
   deallocate hp 0 m = Inl InvariantViolation"
  by (simp add: alignedFree_times_null alignedFree_def deallocate_def)

theorem alignedFree_null_witness:
  "alignedFree {4096} 0 = Inr {4096} \<and> alignedFree_times 3 {4096} 0 = Inr {4096} \<and>
   deallocate {4096} 0 1 = Inl InvariantViolation"
  using alignedFree_null [of "{4096}" 3 1] by simp


section \<open>OlympusDecompressor: the constructor\<close>

lemma uint_u32_of_int:
  assumes "- (2 ^ 31) \<le> x" "x < 2 ^ 31"
  shows "uint (word_of_int x :: u32) = (if 0 \<le> x then x else x + 2 ^ 32)"
proof (cases "0 \<le> x")
  case True
  then have "x mod 2 ^ 32 = x" using assms by simp
  then show ?thesis using True by (simp add: uint_word_of_int)
next
  case False
  have "(x + 4294967296) mod 4294967296 = x + 4294967296"
    using assms False by (intro mod_pos_pos_trivial) simp_all
  moreover have "(x + 4294967296) mod 4294967296 = x mod 4294967296"
    by (rule mod_add_self2)
  ultimately have "x mod 4294967296 = x + 4294967296" by simp
  then show ?thesis using False by (simp add: uint_word_of_int)
qed

lemma u32_dim_checks:
  assumes "- (2 ^ 31) \<le> x" "x < 2 ^ 31"
  shows "(word_of_int x :: u32) = 0 \<longleftrightarrow> x = 0"
    and "(word_of_int x :: u32) mod 2 \<noteq> 0 \<longleftrightarrow> odd x"
    and "(word_of_int x :: u32) > word_of_int c \<longleftrightarrow>
           uint (word_of_int c :: u32) < (if 0 \<le> x then x else x + 2 ^ 32)"
proof -
  note u = uint_u32_of_int [OF assms]
  have "(word_of_int x :: u32) = 0 \<longleftrightarrow> uint (word_of_int x :: u32) = 0"
    by (simp only: uint_0_iff)
  then show "(word_of_int x :: u32) = 0 \<longleftrightarrow> x = 0" using assms unfolding u by auto
  have "(word_of_int x :: u32) mod 2 \<noteq> 0 \<longleftrightarrow> odd (word_of_int x :: u32)"
    by (simp add: even_iff_mod_2_eq_zero)
  moreover have "even (word_of_int x :: u32) \<longleftrightarrow> even x"
    by (simp add: even_of_int_iff)
  ultimately show "(word_of_int x :: u32) mod 2 \<noteq> 0 \<longleftrightarrow> odd x" by simp
  show "(word_of_int x :: u32) > word_of_int c \<longleftrightarrow>
           uint (word_of_int c :: u32) < (if 0 \<le> x then x else x + 2 ^ 32)"
    by (simp only: word_less_def u)
qed

text \<open>
  C5.  For a single-component 16-bit image, the constructor throws the
  exception about the image dimensions if and only if the dimensions violate
  \<open>W > 0\<close>, \<open>H > 0\<close>, \<open>W\<close> even, \<open>H\<close> even, \<open>W \<le> 10400\<close>,
  \<open>H \<le> 7792\<close>; an image of valid dimensions is accepted.  (The
  dimensions are \<^verbatim>\<open>int\<close> values, hence the 32-bit range.)
\<close>

theorem OlympusDecompressor_new_dims:
  assumes c: "cpp mRaw = 1" "dataType mRaw = UINT16" "bpp mRaw = 2"
    and x: "- (2 ^ 31) \<le> dim_x mRaw" "dim_x mRaw < 2 ^ 31"
    and y: "- (2 ^ 31) \<le> dim_y mRaw" "dim_y mRaw < 2 ^ 31"
  shows "(OlympusDecompressor_new mRaw =
            Inl (RawDecoderException ''Unexpected image dimensions found: (%u; %u)'') \<longleftrightarrow>
          \<not> valid_dims (dim_x mRaw) (dim_y mRaw)) \<and>
         (valid_dims (dim_x mRaw) (dim_y mRaw) \<longrightarrow> OlympusDecompressor_new mRaw = Inr mRaw)"
proof -
  have gx: "(word_of_int (dim_x mRaw) :: u32) > 10400 \<longleftrightarrow> dim_x mRaw > 10400 \<or> dim_x mRaw < 0"
    using u32_dim_checks(3) [OF x, of 10400] x by auto
  have gy: "(word_of_int (dim_y mRaw) :: u32) > 7792 \<longleftrightarrow> dim_y mRaw > 7792 \<or> dim_y mRaw < 0"
    using u32_dim_checks(3) [OF y, of 7792] y by auto
  have "(word_of_int (dim_x mRaw) = (0 :: u32) \<or> word_of_int (dim_y mRaw) = (0 :: u32) \<or>
         (word_of_int (dim_x mRaw) :: u32) mod 2 \<noteq> 0 \<or>
         (word_of_int (dim_y mRaw) :: u32) mod 2 \<noteq> 0 \<or>
         (word_of_int (dim_x mRaw) :: u32) > 10400 \<or> (word_of_int (dim_y mRaw) :: u32) > 7792)
        \<longleftrightarrow> \<not> valid_dims (dim_x mRaw) (dim_y mRaw)"
    unfolding gx gy u32_dim_checks(1,2) [OF x] u32_dim_checks(1,2) [OF y] valid_dims_def
    by auto
  then show ?thesis using c by (simp add: OlympusDecompressor_new_def Let_def)
qed

theorem OlympusDecompressor_new_dims_witness:
  "OlympusDecompressor_new (u16_image 10402 2 0) =
     Inl (RawDecoderException ''Unexpected image dimensions found: (%u; %u)'') \<and>
   OlympusDecompressor_new (u16_image 10400 7792 0) = Inr (u16_image 10400 7792 0)"
proof -
  have a: "OlympusDecompressor_new (u16_image 10402 2 0) =
     Inl (RawDecoderException ''Unexpected image dimensions found: (%u; %u)'')"
    using OlympusDecompressor_new_dims [of "u16_image 10402 2 0"]
    by (simp add: u16_image_def valid_dims_def)
  have b: "OlympusDecompressor_new (u16_image 10400 7792 0) = Inr (u16_image 10400 7792 0)"
    using OlympusDecompressor_new_dims [of "u16_image 10400 7792 0"]
    by (simp add: u16_image_def valid_dims_def)
  show ?thesis using a b by simp
qed

section \<open>OlympusDecompressor: the predictor\<close>

lemma rectangular_row:
  assumes "rectangular out" "r < length out" "r' < length out"
  shows "length (out ! r) = length (out ! r')"
  using assms by (simp add: rectangular_def list_all_length)

lemma Array2DRef_get_in:
  assumes "rectangular out" "row < length out" "col < length (out ! row)"
    and "r \<le> row" "c \<le> col"
  shows "Array2DRef_get out r c = Inr (uint (out ! r ! c))"
proof -
  have r: "r < length out" using assms by simp
  have "length (out ! r) = length (out ! row)"
    using assms(1) r assms(2) by (rule rectangular_row)
  then show ?thesis using r assms by (simp add: Array2DRef_get_def)
qed

lemma sign_test:
  "(signbit a \<noteq> signbit b \<and> (a \<noteq> 0 \<and> b \<noteq> 0)) \<longleftrightarrow> different_signs a b"
  by (auto simp add: signbit_def different_signs_def)

text \<open>
  C4.  For every buffer (all rows of one length) and every \<open>(row, col)\<close>
  inside it, \<^verbatim>\<open>getPred\<close> reads inside the buffer and returns what the
  spec describes: 0 when \<open>row < 2\<close> and \<open>col < 2\<close>; \<open>out(row, col - 2)\<close>
  when \<open>row < 2\<close>; \<open>out(row - 2, col)\<close> when \<open>col < 2\<close>; otherwise, if
  \<open>dL\<close> and \<open>dU\<close> have different signs and are both non-zero,
  \<open>L + dU\<close> when one of them exceeds 32 in size and \<open>(L + U) >> 1\<close>
  if not, else \<open>L\<close> when \<open>|dL| > |dU|\<close> and \<open>U\<close> if not.
\<close>

theorem getPred_spec_eq:
  assumes rect: "rectangular out" and row: "row < length out" and col: "col < length (out ! row)"
  shows "getPred out row col = Inr (getPred_spec (\<lambda>r c. uint (out ! r ! c)) row col)"
proof -
  note g = Array2DRef_get_in [OF rect row col]
  have l: "Array2DRef_get out row (col - 2) = Inr (uint (out ! row ! (col - 2)))"
    by (rule g) simp_all
  have u: "Array2DRef_get out (row - 2) col = Inr (uint (out ! (row - 2) ! col))"
    by (rule g) simp_all
  have lu: "Array2DRef_get out (row - 2) (col - 2) = Inr (uint (out ! (row - 2) ! (col - 2)))"
    by (rule g) simp_all
  define L U LU where "L = uint (out ! row ! (col - 2))"
    and "U = uint (out ! (row - 2) ! col)"
    and "LU = uint (out ! (row - 2) ! (col - 2))"
  consider (corner) "row < 2" "col < 2" | (top) "row < 2" "\<not> col < 2"
    | (left) "\<not> row < 2" "col < 2" | (inner) "\<not> row < 2" "\<not> col < 2"
    by blast
  then show ?thesis
  proof cases
    case corner
    then show ?thesis by (simp add: getPred_def getPred_spec_def)
  next
    case top
    then show ?thesis by (simp add: getPred_def getPred_spec_def l)
  next
    case left
    then show ?thesis by (simp add: getPred_def getPred_spec_def u)
  next
    case inner
    have s: "getPred_spec (\<lambda>r c. uint (out ! r ! c)) row col =
               (if different_signs (L - LU) (U - LU) then
                  (if \<bar>L - LU\<bar> > 32 \<or> \<bar>U - LU\<bar> > 32 then L + (U - LU) else (L + U) div 2)
                else (if \<bar>L - LU\<bar> > \<bar>U - LU\<bar> then L else U))"
      using inner unfolding getPred_spec_def L_def U_def LU_def
      by (simp only: Let_def if_False simp_thms)
    have c: "getPred out row col =
               (if signbit (L - LU) \<noteq> signbit (U - LU) \<and> (L - LU \<noteq> 0 \<and> U - LU \<noteq> 0) then
                  (if \<bar>L - LU\<bar> > 32 \<or> \<bar>U - LU\<bar> > 32 then Inr (L + (U - LU))
                   else Inr (drop_bit 1 (L + U)))
                else Inr (if \<bar>L - LU\<bar> > \<bar>U - LU\<bar> then L else U))"
      using inner unfolding getPred_def l u lu L_def U_def LU_def
      by (simp only: Let_def sum.case if_False simp_thms)
    show ?thesis unfolding s c sign_test
      by (simp only: drop_bit_eq_div power_one_right if_distrib [of Inr])
  qed
qed

theorem getPred_spec_eq_witness:
  "getPred pred_buffer 2 2 = Inr 17 \<and> getPred pred_buffer 0 2 = Inr 20"
proof -
  have r: "rectangular pred_buffer" by (simp add: rectangular_def pred_buffer_def)
  have v: "pred_buffer ! 2 ! 0 = 10" "pred_buffer ! 0 ! 2 = 25" "pred_buffer ! 0 ! 0 = 20"
    and l: "(2::nat) < length pred_buffer" "(2::nat) < length (pred_buffer ! 2)"
      "(0::nat) < length pred_buffer" "(2::nat) < length (pred_buffer ! 0)"
    by (simp_all add: pred_buffer_def)
  have a: "getPred_spec (\<lambda>r c. uint (pred_buffer ! r ! c)) 2 2 = 17"
    by (simp add: getPred_spec_def different_signs_def v)
  have b: "getPred_spec (\<lambda>r c. uint (pred_buffer ! r ! c)) 0 2 = 20"
    by (simp add: getPred_spec_def v)
  show ?thesis
    using getPred_spec_eq [OF r l(1) l(2)] getPred_spec_eq [OF r l(3) l(4)]
    by (simp only: a b simp_thms)
qed

section \<open>OlympusDecompressor: the carry\<close>

lemma countl_zero_below_le: "countl_zero_below k v \<le> k"
  by (induction k) simp_all

lemma countl_zero_below_ge:
  assumes "\<And>j. m \<le> j \<Longrightarrow> j < k \<Longrightarrow> \<not> bit v j"
  shows "k - m \<le> countl_zero_below k v"
  using assms
proof (induction k)
  case 0
  then show ?case by simp
next
  case (Suc k)
  show ?case
  proof (cases "m \<le> k")
    case True
    then have "\<not> bit v k" using Suc.prems by simp
    moreover have "k - m \<le> countl_zero_below k v" using Suc by simp
    ultimately show ?thesis using True by simp
  next
    case False
    then show ?thesis by simp
  qed
qed

lemma numActiveBits_le_16: "numActiveBits v \<le> 16"
  by (simp add: numActiveBits_def)

lemma numActiveBits_small:
  assumes "0 \<le> c" "c \<le> 16"
  shows "numActiveBits (word_of_int c) \<le> 5"
proof -
  have "\<not> bit (word_of_int c :: u16) j" if "5 \<le> j" for j
  proof -
    have "(2::int) ^ 5 \<le> 2 ^ j" using that by (intro power_increasing) simp_all
    then have "c < 2 ^ j" using assms by simp
    then have "c div 2 ^ j = 0" using assms by simp
    then have "\<not> bit c j" by (simp add: bit_iff_odd)
    then show ?thesis by (simp add: bit_word_of_int_iff)
  qed
  then have "16 - 5 \<le> countl_zero_below 16 (word_of_int c :: u16)"
    by (intro countl_zero_below_ge) simp
  then show ?thesis by (simp add: numActiveBits_def)
qed

lemma carry_nbits_bounds:
  assumes "carry_inv carry"
  shows "2 \<le> carry_nbits carry" and "carry_nbits carry \<le> 14"
proof -
  obtain c0 c1 c2 where c: "carry = (c0, c1, c2)" by (cases carry)
  show "2 \<le> carry_nbits carry"
    by (simp add: c carry_nbits_def Let_def max_def)
  show "carry_nbits carry \<le> 14"
  proof (cases "c2 < 3")
    case True
    have "int (numActiveBits (word_of_int c0)) \<le> 16"
      using numActiveBits_le_16 [of "word_of_int c0"] by simp
    then show ?thesis using True by (simp add: c carry_nbits_def Let_def max_def)
  next
    case False
    then have "0 \<le> c0" "c0 \<le> 16" using assms by (simp_all add: c carry_inv_def)
    then have "int (numActiveBits (word_of_int c0)) \<le> 5"
      using numActiveBits_small [of c0] by simp
    then show ?thesis using False by (simp add: c carry_nbits_def Let_def max_def)
  qed
qed

lemma bits_value_bounds: "0 \<le> bits_value bs \<and> bits_value bs < 2 ^ length bs"
proof -
  let ?f = "\<lambda>(a::int) b. 2 * a + (if b then 1 else 0)"
  have "0 \<le> foldl ?f a bs \<and> foldl ?f a bs < (a + 1) * 2 ^ length bs"
    if "0 \<le> a" for a :: int
    using that
  proof (induction bs arbitrary: a)
    case Nil
    then show ?case by simp
  next
    case (Cons b bs)
    have a: "0 \<le> ?f a b" using Cons.prems by simp
    have "?f a b + 1 \<le> 2 * a + 2" by simp
    then have "(?f a b + 1) * 2 ^ length bs \<le> (2 * a + 2) * 2 ^ length bs"
      by (rule mult_right_mono) simp
    also have "\<dots> = (a + 1) * 2 ^ length (b # bs)" by (simp add: algebra_simps)
    finally have u: "(?f a b + 1) * 2 ^ length bs \<le> (a + 1) * 2 ^ length (b # bs)" .
    have e: "foldl ?f a (b # bs) = foldl ?f (?f a b) bs" by simp
    from Cons.IH [OF a] u show ?case unfolding e by (meson less_le_trans)
  qed
  from this [of 0] show ?thesis by (simp add: bits_value_def)
qed

lemma peekBitsNoFill_bounds:
  assumes "peekBitsNoFill k bits = Inr v"
  shows "0 \<le> v" and "v < 2 ^ k"
proof -
  have l: "k \<le> length bits" and v: "v = bits_value (take k bits)"
    using assms by (auto simp add: peekBitsNoFill_def split: if_splits)
  have "length (take k bits) = k" using l by simp
  then show "0 \<le> v" and "v < 2 ^ k"
    using bits_value_bounds [of "take k bits"] v by simp_all
qed

lemma getBitsNoFill_bounds:
  assumes "getBitsNoFill k bits = Inr (v, bits')"
  shows "0 \<le> v" and "v < 2 ^ k"
proof -
  have "peekBitsNoFill k bits = Inr v"
    using assms by (auto simp add: getBitsNoFill_def split: sum.splits)
  then show "0 \<le> v" and "v < 2 ^ k" by (rule peekBitsNoFill_bounds)+
qed

declare bittable_scan.simps [simp del]

lemma bittable_scan_le: "high \<le> 12 \<Longrightarrow> bittable_scan i high \<le> 12"
proof (induction i high rule: bittable_scan.induct)
  case (1 i high)
  show ?case
  proof (cases "high < 12")
    case True
    then show ?thesis using 1 by (subst bittable_scan.simps) simp
  next
    case False
    then show ?thesis using 1 by (subst bittable_scan.simps) simp
  qed
qed

lemma bittable_bounds: "0 \<le> bittable i" "bittable i \<le> 12"
  by (simp_all add: bittable_def)


lemma parseCarry_Inr:
  assumes "parseCarry bits (c0, c1, c2) = Inr (v, bits', carry')"
  obtains b high' bits1 lowbits where
    "peekBitsNoFill 15 (fill bits) = Inr b"
    "parseCarry_high (carry_nbits (c0, c1, c2)) (bittable (nat (b AND 4095))) (fill bits) =
       Inr (high', bits1)"
    "getBitsNoFill (nat (carry_nbits (c0, c1, c2))) bits1 = Inr (lowbits, bits')"
    "carry' =
       (push_bit (nat (carry_nbits (c0, c1, c2))) high' OR lowbits,
        drop_bit 5
          ((((push_bit (nat (carry_nbits (c0, c1, c2))) high' OR lowbits)
              XOR (drop_bit 14 b * (- 1))) + c1) * 3 + c1),
        (if push_bit (nat (carry_nbits (c0, c1, c2))) high' OR lowbits > 16 then 0 else c2 + 1))"
  using assms unfolding parseCarry_def Let_def
  by (simp split: sum.splits prod.splits)

lemma parseCarry_high_bounds:
  assumes h: "parseCarry_high nbits high bits = Inr (high', bits')"
    and n: "2 \<le> nbits" "nbits \<le> 14" and hi: "0 \<le> high" "high \<le> 12"
  shows "0 \<le> high'" and "high' * 2 ^ nat nbits < 2 ^ 18"
proof -
  have p: "(2::int) ^ nat nbits \<le> 2 ^ 14"
    using n by (intro power_increasing) simp_all
  have p0: "(0::int) < 2 ^ nat nbits" by simp
  have "0 \<le> high' \<and> high' * 2 ^ nat nbits < 2 ^ 18"
  proof (cases "high = 12")
    case True
    then obtain bits1 v where s: "skipBitsNoFill 15 bits = Inr bits1"
      and g: "getBitsNoFill (nat (16 - nbits)) bits1 = Inr (v, bits')"
      and e: "high' = drop_bit 1 v"
      using h by (auto simp add: parseCarry_high_def split: sum.splits)
    note b = getBitsNoFill_bounds [OF g]
    have "nat (16 - nbits) + nat nbits = 16" using n by simp
    then have "(2::int) ^ nat (16 - nbits) * 2 ^ nat nbits = 2 ^ 16"
      by (simp flip: power_add)
    moreover have "v * 2 ^ nat nbits < 2 ^ nat (16 - nbits) * 2 ^ nat nbits"
      using b(2) p0 by (rule mult_strict_right_mono)
    ultimately have v: "v * 2 ^ nat nbits < 2 ^ 16" by simp
    have d: "high' = v div 2" using e by (simp add: drop_bit_eq_div)
    then have "high' \<le> v" using b(1) by simp
    then have "high' * 2 ^ nat nbits \<le> v * 2 ^ nat nbits"
      by (rule mult_right_mono) simp
    then have "high' * 2 ^ nat nbits < 2 ^ 16" using v by (rule le_less_trans)
    then have "high' * 2 ^ nat nbits < 2 ^ 18" by simp
    moreover have "0 \<le> high'" using d b(1) by simp
    ultimately show ?thesis by simp
  next
    case False
    then have e: "high' = high"
      using h by (auto simp add: parseCarry_high_def split: sum.splits)
    then have h0: "0 \<le> high'" using hi by simp
    have "high' \<le> 11" using e hi False by simp
    then have "high' * 2 ^ nat nbits \<le> 11 * 2 ^ nat nbits"
      by (rule mult_right_mono) simp
    also have "\<dots> \<le> 11 * 2 ^ 14" using p by simp
    finally have "high' * 2 ^ nat nbits < 2 ^ 18" by simp
    then show ?thesis using h0 by simp
  qed
  then show "0 \<le> high'" and "high' * 2 ^ nat nbits < 2 ^ 18" by simp_all
qed

lemma parseCarry_inv:
  assumes inv: "carry_inv carry" and p: "parseCarry bits carry = Inr (v, bits', carry')"
  shows "carry_inv carry'"
proof -
  obtain c0 c1 c2 where c: "carry = (c0, c1, c2)" by (cases carry)
  let ?n = "carry_nbits (c0, c1, c2)"
  note n = carry_nbits_bounds [OF inv [unfolded c]]
  from p [unfolded c] obtain b high' bits1 lowbits where
    pk: "peekBitsNoFill 15 (fill bits) = Inr b"
    and ph: "parseCarry_high ?n (bittable (nat (b AND 4095))) (fill bits) = Inr (high', bits1)"
    and gl: "getBitsNoFill (nat ?n) bits1 = Inr (lowbits, bits')"
    and c': "carry' =
       (push_bit (nat ?n) high' OR lowbits,
        drop_bit 5 ((((push_bit (nat ?n) high' OR lowbits) XOR (drop_bit 14 b * (- 1))) + c1) * 3 + c1),
        (if push_bit (nat ?n) high' OR lowbits > 16 then 0 else c2 + 1))"
    by (rule parseCarry_Inr)
  define c0' where "c0' = push_bit (nat ?n) high' OR lowbits"
  define sign where "sign = drop_bit 14 b * (- 1)"
  note hb = parseCarry_high_bounds [OF ph n bittable_bounds]
  note lb = getBitsNoFill_bounds [OF gl]
  note bb = peekBitsNoFill_bounds [OF pk]
  have "(2::int) ^ nat ?n \<le> 2 ^ 14" using n by (intro power_increasing) simp_all
  then have l18: "lowbits < 2 ^ 18" using lb(2) by simp
  have h18: "push_bit (nat ?n) high' < 2 ^ 18" using hb(2) by (simp add: push_bit_eq_mult)
  have h0: "0 \<le> push_bit (nat ?n) high'" using hb(1) by simp
  have c0_lo: "0 \<le> c0'" using h0 lb(1) by (simp add: c0'_def)
  have c0_hi: "c0' < 2 ^ 18" unfolding c0'_def using h0 h18 l18 by (rule OR_upper)
  have "b div 2 ^ 14 = 0 \<or> b div 2 ^ 14 = 1"
  proof -
    have "0 \<le> b div 2 ^ 14" using bb(1) by simp
    moreover have "b div 2 ^ 14 < 2" using bb(2) by simp
    ultimately show ?thesis by linarith
  qed
  then have "sign = 0 \<or> sign = - 1" by (auto simp add: sign_def drop_bit_eq_div)
  then have "c0' XOR sign = c0' \<or> c0' XOR sign = - c0' - 1"
    by (auto simp add: not_int_def)
  then have x: "- (2 ^ 18) \<le> c0' XOR sign" "c0' XOR sign < 2 ^ 18"
    using c0_lo c0_hi by auto
  have c1: "- (2 ^ 16) \<le> c1" "c1 \<le> 2 ^ 16" and c2: "0 \<le> c2"
    using inv by (simp_all add: c carry_inv_def)
  define t where "t = ((c0' XOR sign) + c1) * 3 + c1"
  have t: "- (2 ^ 20) \<le> t" "t \<le> 2 ^ 20" using x c1 by (simp_all add: t_def)
  have "- (2 ^ 16) \<le> t div 32" "t div 32 \<le> 2 ^ 16" using t by simp_all
  then have d: "- (2 ^ 16) \<le> drop_bit 5 t" "drop_bit 5 t \<le> 2 ^ 16"
    by (simp_all add: drop_bit_eq_div)
  have e: "carry' = (c0', drop_bit 5 t, (if c0' > 16 then 0 else c2 + 1))"
    unfolding c' c0'_def t_def sign_def by simp
  show ?thesis unfolding e carry_inv_def using c0_lo c0_hi d c2 by simp
qed


lemma reachable_carry_inv:
  assumes "reachable_carry carry"
  shows "carry_inv carry"
  using assms
proof (induction rule: reachable_carry.induct)
  case initial
  show ?case by (simp add: carry_inv_def)
next
  case (step carry bits v bits' carry')
  from step.IH step.hyps(2) show ?case by (rule parseCarry_inv)
qed

text \<open>
  C1.  For every carry that the decoder can reach (from \<open>(0, 0, 0)\<close>, by
  calls of \<^verbatim>\<open>parseCarry\<close> on any bits), the value \<open>nbits\<close> computed
  at the start of the next sample decode lies between 2 and 14.  So no input
  leads to a value outside the bound, and the two assertions of
  \<^verbatim>\<open>parseCarry\<close> never fail.
\<close>

theorem reachable_carry_nbits:
  assumes "reachable_carry carry"
  shows "2 \<le> carry_nbits carry \<and> carry_nbits carry \<le> 14"
  using carry_nbits_bounds [OF reachable_carry_inv [OF assms]] by simp

lemma parseCarry_ones:
  "parseCarry (replicate 19 True) (0, 0, 0) = Inr (- 61, replicate 11 True, (15, - 2, 1))"
  by code_simp

theorem reachable_carry_nbits_witness:
  "2 \<le> carry_nbits (15, - 2, 1) \<and> carry_nbits (15, - 2, 1) \<le> 14"
proof -
  have "reachable_carry (15, - 2, 1)"
    using reachable_carry.initial parseCarry_ones by (rule reachable_carry.step)
  then show ?thesis by (rule reachable_carry_nbits)
qed

section \<open>OlympusDecompressor: the all-zero stream\<close>

lemma bits_of_zero_bytes: "BitStreamerMSB_new (replicate k 0) = replicate (8 * k) False"
proof (induction k)
  case 0
  show ?case by (simp add: BitStreamerMSB_new_def)
next
  case (Suc k)
  have "bits_of_byte 0 = replicate 8 False"
    by (simp add: bits_of_byte_def numeral_eq_Suc)
  then have "BitStreamerMSB_new (replicate (Suc k) 0) =
               replicate 8 False @ BitStreamerMSB_new (replicate k 0)"
    by (simp add: BitStreamerMSB_new_def)
  also have "\<dots> = replicate 8 False @ replicate (8 * k) False" by (simp only: Suc)
  also have "\<dots> = replicate (8 + 8 * k) False" by (simp only: replicate_add)
  finally show ?case by simp
qed

lemma bits_value_zeros: "bits_value (replicate m False) = 0"
proof -
  have "foldl (\<lambda>a b. 2 * a + (if b then 1 else 0)) (0::int) (replicate m False) = 0"
    by (induction m) simp_all
  then show ?thesis by (simp add: bits_value_def)
qed

lemma peek_zeros:
  "k \<le> m \<Longrightarrow> peekBitsNoFill k (replicate m False) = Inr 0"
  by (simp add: peekBitsNoFill_def bits_value_zeros min_def)

lemma skip_zeros:
  "k \<le> m \<Longrightarrow> skipBitsNoFill k (replicate m False) = Inr (replicate (m - k) False)"
  by (simp add: skipBitsNoFill_def)

lemma get_zeros:
  "k \<le> m \<Longrightarrow> getBitsNoFill k (replicate m False) = Inr (0, replicate (m - k) False)"
  by (simp add: getBitsNoFill_def peek_zeros skip_zeros)

lemma bittable_0: "bittable 0 = 12"
  by code_simp

lemma numActiveBits_0: "numActiveBits 0 = 0"
  by code_simp

lemma carry_nbits_zero: "carry_nbits (0, 0, c2) = (if c2 < 3 then 4 else 2)"
  by (simp add: carry_nbits_def numActiveBits_0 Let_def)

lemma parseCarry_high_zeros:
  assumes "31 \<le> m" "nbits = 4 \<or> nbits = 2"
  shows "parseCarry_high nbits 12 (replicate m False) =
           Inr (0, replicate (m - 15 - nat (16 - nbits)) False)"
  using assms by (auto simp add: parseCarry_high_def skip_zeros get_zeros)

lemma parseCarry_zeros:
  assumes m: "31 \<le> m"
  shows "parseCarry (replicate m False) (0, 0, c2) =
           Inr (0, replicate (m - 31) False, (0, 0, c2 + 1))"
proof -
  let ?n = "carry_nbits (0, 0, c2)"
  have n: "?n = 4 \<or> ?n = 2" by (simp add: carry_nbits_zero)
  have p: "peekBitsNoFill 15 (fill (replicate m False)) = Inr 0"
    using m by (simp add: fill_def peek_zeros)
  define r1 where "r1 = m - 15 - nat (16 - ?n)"
  have h: "parseCarry_high ?n 12 (fill (replicate m False)) = Inr (0, replicate r1 False)"
    unfolding fill_def r1_def using m n by (rule parseCarry_high_zeros)
  have r: "nat ?n \<le> r1" "r1 - nat ?n = m - 31" using n m by (auto simp add: r1_def)
  have g: "getBitsNoFill (nat ?n) (replicate r1 False) = Inr (0, replicate (m - 31) False)"
    using get_zeros [OF r(1)] by (simp only: r(2))
  show ?thesis
    unfolding parseCarry_def
    by (simp add: Let_def p h g bittable_0)
qed


lemma getPred_zeros:
  assumes rect: "rectangular out" and row: "row < length out" and col: "col < length (out ! row)"
    and left: "\<And>c. c < col \<Longrightarrow> out ! row ! c = 0"
    and above: "\<And>r c. r < row \<Longrightarrow> c < length (out ! row) \<Longrightarrow> out ! r ! c = 0"
  shows "getPred out row col = Inr 0"
proof -
  note g = Array2DRef_get_in [OF rect row col]
  have l: "Array2DRef_get out row (col - 2) = Inr 0" if "\<not> col < 2"
  proof -
    have "out ! row ! (col - 2) = 0" using that by (intro left) simp
    moreover have "Array2DRef_get out row (col - 2) = Inr (uint (out ! row ! (col - 2)))"
      by (rule g) simp_all
    ultimately show ?thesis by simp
  qed
  have u: "Array2DRef_get out (row - 2) c = Inr 0" if "\<not> row < 2" "c \<le> col" for c
  proof -
    have "out ! (row - 2) ! c = 0" using that col by (intro above) simp_all
    moreover have "Array2DRef_get out (row - 2) c = Inr (uint (out ! (row - 2) ! c))"
      using that by (intro g) simp_all
    ultimately show ?thesis by simp
  qed
  consider (corner) "row < 2" "col < 2" | (top) "row < 2" "\<not> col < 2"
    | (left) "\<not> row < 2" "col < 2" | (inner) "\<not> row < 2" "\<not> col < 2"
    by blast
  then show ?thesis
  proof cases
    case corner
    then show ?thesis by (simp add: getPred_def)
  next
    case top
    then show ?thesis by (simp add: getPred_def l)
  next
    case left
    then show ?thesis by (simp add: getPred_def u)
  next
    case inner
    have r: "Array2DRef_get out row (col - 2) = Inr 0"
      "Array2DRef_get out (row - 2) col = Inr 0"
      "Array2DRef_get out (row - 2) (col - 2) = Inr 0"
      using inner by (simp_all add: u l)
    show ?thesis
      using inner unfolding getPred_def r
      by (simp only: Let_def sum.case if_False simp_thms diff_self if_cancel)
  qed
qed

lemma rectangular_update:
  assumes "rectangular out" "row < length out" "length xs = length (out ! row)"
  shows "rectangular (out[row := xs])"
proof -
  let ?out = "out[row := xs]"
  have a: "length (?out ! r) = length xs" if r: "r < length out" for r
  proof (cases "r = row")
    case True
    then show ?thesis using r by simp
  next
    case False
    have "length (out ! r) = length (out ! row)"
      using assms(1) r assms(2) by (rule rectangular_row)
    then show ?thesis using False assms(3) by simp
  qed
  have n: "0 < length out" "?out \<noteq> []" using assms(2) by auto
  have h: "length (hd ?out) = length xs"
    using a [OF n(1)] n(2) by (simp add: hd_conv_nth)
  have "length (?out ! r) = length (hd ?out)" if "r < length ?out" for r
    using that a [of r] unfolding h by simp
  then show ?thesis
    unfolding rectangular_def list_all_length by blast
qed

lemma decompressRow_sample_zeros:
  assumes rect: "rectangular out" and row: "row < length out" and col: "col < length (out ! row)"
    and left: "\<And>c. c < col \<Longrightarrow> out ! row ! c = 0"
    and above: "\<And>r c. r < row \<Longrightarrow> c < length (out ! row) \<Longrightarrow> out ! r ! c = 0"
    and m: "31 \<le> m"
  shows "decompressRow_sample row col (replicate m False) (0, 0, c2) out =
           Inr (replicate (m - 31) False, (0, 0, c2 + 1), out[row := (out ! row)[col := 0]])"
proof -
  have p: "getPred out row col = Inr 0"
    using rect row col left above by (rule getPred_zeros)
  show ?thesis
    using row col
    by (simp add: decompressRow_sample_def parseCarry_zeros [OF m] p Array2DRef_set_def)
qed


declare decompressRow_groups.simps [simp del] decompress_rows.simps [simp del]

lemma decompressRow_groups_zeros:
  assumes "G - g = d"
    and "rectangular out" "row < length out" "length (out ! row) = 2 * G"
    and "g \<le> G" "62 * d \<le> m"
    and "\<And>c. c < 2 * g \<Longrightarrow> out ! row ! c = 0"
    and "\<And>r c. r < row \<Longrightarrow> c < 2 * G \<Longrightarrow> out ! r ! c = 0"
  shows "decompressRow_groups G g row (replicate m False) ((0, 0, k), (0, 0, k)) out =
           Inr (replicate (m - 62 * d) False,
                ((0, 0, k + int d), (0, 0, k + int d)),
                out[row := replicate (2 * G) 0])"
  using assms
proof (induction d arbitrary: g m k out)
  case 0
  then have g: "g = G" by simp
  have "out ! row = replicate (2 * G) 0"
    using "0.prems"(4,7) g by (intro nth_equalityI) simp_all
  then have "out[row := replicate (2 * G) 0] = out"
    by (metis list_update_id)
  then show ?case using g
    by (subst decompressRow_groups.simps) simp
next
  case (Suc d)
  note rect = Suc.prems(2) and row = Suc.prems(3) and len = Suc.prems(4)
    and left = Suc.prems(7) and above = Suc.prems(8)
  have g: "g < G" and d: "G - (g + 1) = d" using Suc.prems(1) by simp_all
  have m: "31 \<le> m" "31 \<le> m - 31" "62 * d \<le> m - 31 - 31" using Suc.prems(6) by simp_all
  let ?out1 = "out[row := (out ! row)[2 * g := 0]]"
  let ?out2 = "?out1[row := (?out1 ! row)[2 * g + 1 := 0]]"
  have s0: "decompressRow_sample row (2 * g) (replicate m False) (0, 0, k) out =
              Inr (replicate (m - 31) False, (0, 0, k + 1), ?out1)"
  proof (rule decompressRow_sample_zeros [OF rect row _ _ _ m(1)])
    show "2 * g < length (out ! row)" using g len by simp
    show "out ! row ! c = 0" if "c < 2 * g" for c using that by (rule left)
    show "out ! r ! c = 0" if "r < row" "c < length (out ! row)" for r c
      using that len by (intro above) simp_all
  qed
  have rect1: "rectangular ?out1" using rect row by (rule rectangular_update) simp
  have row1: "row < length ?out1" using row by simp
  have len1: "length (?out1 ! row) = 2 * G" using row len by simp
  have s1: "decompressRow_sample row (2 * g + 1) (replicate (m - 31) False) (0, 0, k) ?out1 =
              Inr (replicate (m - 31 - 31) False, (0, 0, k + 1), ?out2)"
  proof (rule decompressRow_sample_zeros [OF rect1 row1 _ _ _ m(2)])
    show "2 * g + 1 < length (?out1 ! row)" using g len1 by simp
    show "?out1 ! row ! c = 0" if "c < 2 * g + 1" for c
    proof (cases "c = 2 * g")
      case True
      then show ?thesis using row g len by simp
    next
      case False
      then have "c < 2 * g" using that by simp
      then show ?thesis using row left [of c] by simp
    qed
    show "?out1 ! r ! c = 0" if "r < row" "c < length (?out1 ! row)" for r c
      using that len1 above [of r c] by simp
  qed
  have rect2: "rectangular ?out2" using rect1 row1 by (rule rectangular_update) simp
  have row2: "row < length ?out2" using row by simp
  have len2: "length (?out2 ! row) = 2 * G" using row len by simp
  have left2: "?out2 ! row ! c = 0" if c: "c < 2 * (g + 1)" for c
  proof -
    have "c = 2 * g + 1 \<or> c = 2 * g \<or> c < 2 * g" using c by arith
    then consider "c = 2 * g + 1" | "c = 2 * g" | "c < 2 * g" by blast
    then show ?thesis
    proof cases
      case 1
      then show ?thesis using row g len by simp
    next
      case 2
      then show ?thesis using row g len by simp
    next
      case 3
      then show ?thesis using row left [of c] by simp
    qed
  qed
  have above2: "?out2 ! r ! c = 0" if "r < row" "c < 2 * G" for r c
    using that above [of r c] by simp
  have "g + 1 \<le> G" using g by simp
  note ih = Suc.IH [OF d rect2 row2 len2 this m(3) left2 above2, of "k + 1"]
  have e: "m - 31 - 31 - 62 * d = m - 62 * Suc d" "k + 1 + int d = k + int (Suc d)"
    by simp_all
  have o: "?out2[row := replicate (2 * G) 0] = out[row := replicate (2 * G) 0]"
    by simp
  have u: "decompressRow_groups G g row B A out =
      (case decompressRow_sample row (2 * g + 0) B (fst A) out of
         Inl e \<Rightarrow> Inl e
       | Inr (bits1, carry0, out1) \<Rightarrow>
           (case decompressRow_sample row (2 * g + 1) bits1 (snd A) out1 of
              Inl e \<Rightarrow> Inl e
            | Inr (bits2, carry1, out2) \<Rightarrow>
                decompressRow_groups G (g + 1) row bits2 (carry0, carry1) out2))" for B A
    using g by (subst decompressRow_groups.simps) (simp only: if_True)
  show ?case
    unfolding u
    by (simp only: fst_conv snd_conv add_0_right s0 s1 sum.case prod.case ih e o)
qed


lemma allocated_rectangular:
  assumes "RawImage_allocated mRaw"
  shows "rectangular (pixels mRaw)"
proof (cases "pixels mRaw")
  case Nil
  then show ?thesis by (simp add: rectangular_def)
next
  case (Cons x xs)
  have a: "length r = nat (dim_x mRaw) * cpp mRaw" if "r \<in> set (pixels mRaw)" for r
    using assms that by (simp add: RawImage_allocated_def list_all_iff)
  have "hd (pixels mRaw) \<in> set (pixels mRaw)" using Cons by simp
  then have "length (hd (pixels mRaw)) = nat (dim_x mRaw) * cpp mRaw" by (rule a)
  then show ?thesis using a by (simp add: rectangular_def list_all_iff)
qed

lemma decompressRow_zeros:
  assumes dims: "0 < dim_x mRaw" "even (dim_x mRaw)" "cpp mRaw = 1"
    and alloc: "RawImage_allocated mRaw" and y: "int y < dim_y mRaw"
    and m: "31 * nat (dim_x mRaw) \<le> m"
    and above: "\<And>r. r < y \<Longrightarrow> pixels mRaw ! r = replicate (nat (dim_x mRaw)) 0"
  shows "decompressRow mRaw (replicate m False) y =
           Inr (replicate (m - 31 * nat (dim_x mRaw)) False,
                ((0, 0, dim_x mRaw div 2), (0, 0, dim_x mRaw div 2)),
                (pixels mRaw)[y := replicate (nat (dim_x mRaw)) 0])"
proof -
  define G where "G = nat (dim_x mRaw div 2)"
  have W: "nat (dim_x mRaw) = 2 * G" using dims(1,2) by (auto simp add: G_def elim: evenE)
  have Gi: "int G = dim_x mRaw div 2" using dims(1) by (simp add: G_def)
  have row: "y < length (pixels mRaw)" using alloc y by (simp add: RawImage_allocated_def)
  then have "pixels mRaw ! y \<in> set (pixels mRaw)" by simp
  then have len: "length (pixels mRaw ! y) = 2 * G"
    using alloc dims(3) W by (simp add: RawImage_allocated_def list_all_iff)
  have z: "pixels mRaw ! r ! c = 0" if "r < y" "c < 2 * G" for r c
    using above [OF that(1)] that(2) W by simp
  have "decompressRow_groups G 0 y (replicate m False) ((0, 0, 0), (0, 0, 0)) (pixels mRaw) =
          Inr (replicate (m - 62 * G) False,
               ((0, 0, 0 + int G), (0, 0, 0 + int G)),
               (pixels mRaw)[y := replicate (2 * G) 0])"
  proof (rule decompressRow_groups_zeros [OF _ allocated_rectangular [OF alloc] row len])
    show "G - 0 = G" by simp
    show "0 \<le> G" by simp
    show "62 * G \<le> m" using m W by simp
    show "pixels mRaw ! y ! c = 0" if "c < 2 * 0" for c using that by simp
    show "pixels mRaw ! r ! c = 0" if "r < y" "c < 2 * G" for r c using that by (rule z)
  qed
  moreover have "62 * G = 31 * nat (dim_x mRaw)" using W by simp
  moreover have "dim_x mRaw * int (cpp mRaw) = dim_x mRaw" using dims(3) by simp
  ultimately show ?thesis
    using dims(1,2) by (simp add: decompressRow_def Let_def Gi W [symmetric] G_def [symmetric])
qed


lemma decompress_rows_zeros:
  assumes "nat (dim_y mRaw) - y = d"
    and dims: "0 < dim_x mRaw" "even (dim_x mRaw)" "cpp mRaw = 1"
    and alloc: "RawImage_allocated mRaw" and y: "y \<le> nat (dim_y mRaw)"
    and m: "31 * nat (dim_x mRaw) * d \<le> m"
    and above: "\<And>r. r < y \<Longrightarrow> pixels mRaw ! r = replicate (nat (dim_x mRaw)) 0"
  shows "decompress_rows y (replicate m False) mRaw ends =
           Inr (mRaw\<lparr>pixels := replicate (nat (dim_y mRaw)) (replicate (nat (dim_x mRaw)) 0)\<rparr>,
                ends @ replicate d ((0, 0, dim_x mRaw div 2), (0, 0, dim_x mRaw div 2)))"
  using assms
proof (induction d arbitrary: y m mRaw ends)
  case 0
  then have y: "\<not> int y < dim_y mRaw" and e: "y = nat (dim_y mRaw)" by simp_all
  have "length (pixels mRaw) = nat (dim_y mRaw)"
    using "0.prems"(5) by (simp add: RawImage_allocated_def)
  then have "pixels mRaw = replicate (nat (dim_y mRaw)) (replicate (nat (dim_x mRaw)) 0)"
    using "0.prems"(8) e by (intro nth_equalityI) simp_all
  then have "mRaw\<lparr>pixels := replicate (nat (dim_y mRaw)) (replicate (nat (dim_x mRaw)) 0)\<rparr> = mRaw"
    by simp
  then show ?case using y
    by (subst decompress_rows.simps) simp
next
  case (Suc d)
  note dims = Suc.prems(2,3,4) and alloc = Suc.prems(5) and above = Suc.prems(8)
  let ?W = "nat (dim_x mRaw)" and ?H = "nat (dim_y mRaw)"
  let ?c = "((0, 0, dim_x mRaw div 2), (0, 0, dim_x mRaw div 2)) :: carry \<times> carry"
  have y: "int y < dim_y mRaw" and d: "?H - (y + 1) = d" and y1: "y + 1 \<le> ?H"
    using Suc.prems(1) by simp_all
  have "31 * ?W * Suc d = 31 * ?W + 31 * ?W * d" by simp
  then have m: "31 * ?W \<le> m" "31 * ?W * d \<le> m - 31 * ?W"
    using Suc.prems(7) by simp_all
  let ?out = "(pixels mRaw)[y := replicate ?W 0]"
  let ?mRaw = "mRaw\<lparr>pixels := ?out\<rparr>"
  have r: "decompressRow mRaw (replicate m False) y =
             Inr (replicate (m - 31 * ?W) False, ?c, ?out)"
    using dims alloc y m(1) above by (rule decompressRow_zeros)
  have len: "length (pixels mRaw) = ?H"
    and rows: "\<And>x. x \<in> set (pixels mRaw) \<Longrightarrow> length x = ?W * cpp mRaw"
    using alloc by (simp_all add: RawImage_allocated_def list_all_iff)
  have "x \<in> set ?out \<Longrightarrow> length x = ?W * cpp mRaw" for x
    using rows dims(3) by (auto dest!: set_update_subset_insert [THEN subsetD])
  then have alloc': "RawImage_allocated ?mRaw"
    using len by (simp add: RawImage_allocated_def list_all_iff)
  have above': "pixels ?mRaw ! r = replicate (nat (dim_x ?mRaw)) 0" if "r < y + 1" for r
  proof (cases "r = y")
    case True
    then show ?thesis using y len by simp
  next
    case False
    then have "r < y" using that by simp
    then show ?thesis using above [of r] False by simp
  qed
  have ih: "decompress_rows (y + 1) (replicate (m - 31 * ?W) False) ?mRaw (ends @ [?c]) =
              Inr (mRaw\<lparr>pixels := replicate ?H (replicate ?W 0)\<rparr>,
                   (ends @ [?c]) @ replicate d ?c)"
    using Suc.IH [of ?mRaw "y + 1" "m - 31 * ?W" "ends @ [?c]"] d dims alloc' y1 m(2) above'
    by simp
  have u: "decompress_rows y B mRaw ends =
      (case decompressRow mRaw B y of
         Inl e \<Rightarrow> Inl e
       | Inr (bits', acarry, out) \<Rightarrow>
           decompress_rows (y + 1) bits' (mRaw\<lparr>pixels := out\<rparr>) (ends @ [acarry]))" for B
    using y by (subst decompress_rows.simps) (simp only: if_True)
  have e: "(ends @ [?c]) @ replicate d ?c = ends @ replicate (Suc d) ?c" by simp
  show ?case
    unfolding u by (simp only: r sum.case prod.case ih e)
qed

text \<open>
  C6, as stated, fails.  Every sample of an all-zero stream takes 31 bits
  (15 peeked and skipped, then \<open>16 - nbits\<close>, then \<open>nbits\<close>), so
  \<open>W * H * 2\<close> bytes, 16 bits a sample, do not suffice: a 6 by 2 image
  with 24 zero bytes after the prefix ends in the error of the bit reader.
\<close>

theorem decompress_zero_counterexample:
  "valid_dims 6 2 \<and>
   decompress (u16_image 6 2 5) (replicate 7 0 @ replicate (6 * 2 * 2) 0) =
     Inl TruncatedBitstream"
proof -
  have "decompress (u16_image 6 2 5) (replicate 7 0 @ replicate (6 * 2 * 2) 0) =
     Inl TruncatedBitstream"
    by code_simp
  then show ?thesis by (simp add: valid_dims_def)
qed

text \<open>
  C6, as amended.  For every image of valid dimensions (one component, data
  allocated, whatever it holds), decompressing 7 prefix bytes followed by
  \<open>k\<close> zero bytes with \<open>8 * k \<ge> 31 * W * H\<close> succeeds, leaves 0 in every
  cell of the image, and ends every row with both carries \<open>(0, 0, W / 2)\<close>;
  so the third component is at least 3 when a row has at least 3 samples of
  each column parity (\<open>W \<ge> 6\<close>).
\<close>

theorem decompress_zero_stream:
  assumes dims: "valid_dims (dim_x mRaw) (dim_y mRaw)" and cpp: "cpp mRaw = 1"
    and alloc: "RawImage_allocated mRaw"
    and prefix: "length prefix = 7"
    and k: "31 * nat (dim_x mRaw) * nat (dim_y mRaw) \<le> 8 * k"
  shows "decompress mRaw (prefix @ replicate k 0) =
           Inr (mRaw\<lparr>pixels := replicate (nat (dim_y mRaw)) (replicate (nat (dim_x mRaw)) 0)\<rparr>,
                replicate (nat (dim_y mRaw))
                  ((0, 0, dim_x mRaw div 2), (0, 0, dim_x mRaw div 2))) \<and>
         (6 \<le> dim_x mRaw \<longrightarrow> 3 \<le> dim_x mRaw div 2)"
proof -
  have d: "0 < dim_x mRaw" "even (dim_x mRaw)" "0 < dim_y mRaw"
    using dims by (simp_all add: valid_dims_def)
  have s: "skipBytes 7 (prefix @ replicate k 0) = Inr (replicate k 0)"
    using prefix by (simp add: skipBytes_def)
  have "decompress_rows 0 (replicate (8 * k) False) mRaw [] =
          Inr (mRaw\<lparr>pixels := replicate (nat (dim_y mRaw)) (replicate (nat (dim_x mRaw)) 0)\<rparr>,
               [] @ replicate (nat (dim_y mRaw))
                 ((0, 0, dim_x mRaw div 2), (0, 0, dim_x mRaw div 2)))"
    using _ d(1,2) cpp alloc _ k
  proof (rule decompress_rows_zeros)
    show "nat (dim_y mRaw) - 0 = nat (dim_y mRaw)" by simp
    show "0 \<le> nat (dim_y mRaw)" by simp
    show "pixels mRaw ! r = replicate (nat (dim_x mRaw)) 0" if "r < 0" for r
      using that by simp
  qed
  then have "decompress mRaw (prefix @ replicate k 0) =
           Inr (mRaw\<lparr>pixels := replicate (nat (dim_y mRaw)) (replicate (nat (dim_x mRaw)) 0)\<rparr>,
                replicate (nat (dim_y mRaw))
                  ((0, 0, dim_x mRaw div 2), (0, 0, dim_x mRaw div 2)))"
    using d by (simp add: decompress_def s bits_of_zero_bytes)
  moreover have "6 \<le> dim_x mRaw \<longrightarrow> 3 \<le> dim_x mRaw div 2" by arith
  ultimately show ?thesis by (rule conjI)
qed

theorem decompress_zero_stream_witness:
  "decompress (u16_image 6 2 5) (replicate 7 9 @ replicate 47 0) =
     Inr (u16_image 6 2 0, replicate 2 ((0, 0, 3), (0, 0, 3)))"
proof -
  have a: "valid_dims (dim_x (u16_image 6 2 5)) (dim_y (u16_image 6 2 5))"
    by (simp add: u16_image_def valid_dims_def)
  have b: "cpp (u16_image 6 2 5) = 1" by (simp add: u16_image_def)
  have c: "RawImage_allocated (u16_image 6 2 5)"
    by (simp add: u16_image_def RawImage_allocated_def list_all_iff)
  have d: "length (replicate 7 (9 :: u8)) = 7" by simp
  have e: "31 * nat (dim_x (u16_image 6 2 5)) * nat (dim_y (u16_image 6 2 5)) \<le> 8 * 47"
    by (simp add: u16_image_def)
  show ?thesis
    using decompress_zero_stream [OF a b c d e] by (simp add: u16_image_def)
qed

end
